theory Spec2Isabelle
  imports Main "HOL-Library.AList"
begin

section \<open>Data model (src/types/conversation.ts)\<close>

text \<open>
  The interfaces \<^verbatim>\<open>AnswerSection\<close>, \<^verbatim>\<open>ConversationNode\<close> and \<^verbatim>\<open>ConversationTree\<close> become
  records. The fields \<^verbatim>\<open>id\<close>, \<^verbatim>\<open>text\<close>, \<^verbatim>\<open>index\<close> and \<^verbatim>\<open>context\<close> are renamed, since those
  words are taken in Isabelle. A field of type \<^verbatim>\<open>string | null\<close> is a \<open>string option\<close>
  (\<open>None\<close> is \<^verbatim>\<open>null\<close>); an optional field \<^verbatim>\<open>f?: T\<close> is a \<open>T option\<close> (\<open>None\<close> is an absent field).
  Numbers that the code only stores or compares (time stamps, indices, coordinates) are
  integers.
\<close>

record AnswerSection =
  section_id :: string
  section_text :: string
  section_index :: nat

record ConversationNode =
  node_id :: string
  name :: string
  question :: string
  answer :: string
  answerSections :: "AnswerSection list option"
  parentId :: "string option"
  childrenIds :: "string list"
  node_context :: "string list"
  timestamp :: nat
  position :: "int \<times> int"
  isCollapsed :: bool
  selectedSectionIndexFromParent :: "int option"

text \<open>
  A JavaScript \<^verbatim>\<open>Map\<close> keeps its entries in insertion order: it is an association list
  with one entry per key. \<^verbatim>\<open>get\<close> is \<^const>\<open>map_of\<close>; \<^verbatim>\<open>set\<close> is \<^const>\<open>AList.update\<close>, which
  replaces the value of a key in place and appends a new key at the end; \<^verbatim>\<open>delete\<close> is
  \<^const>\<open>AList.delete\<close>; \<^verbatim>\<open>size\<close> is the length of the list.
\<close>

abbreviation Map_get :: "('k \<times> 'v) list \<Rightarrow> 'k \<Rightarrow> 'v option" where
  "Map_get m k \<equiv> map_of m k"

abbreviation Map_set :: "('k \<times> 'v) list \<Rightarrow> 'k \<Rightarrow> 'v \<Rightarrow> ('k \<times> 'v) list" where
  "Map_set m k v \<equiv> AList.update k v m"

abbreviation Map_delete :: "('k \<times> 'v) list \<Rightarrow> 'k \<Rightarrow> ('k \<times> 'v) list" where
  "Map_delete m k \<equiv> AList.delete k m"

abbreviation Map_size :: "('k \<times> 'v) list \<Rightarrow> nat" where
  "Map_size m \<equiv> length m"

record ConversationTree =
  nodes :: "(string \<times> ConversationNode) list"
  rootIds :: "string list"

text \<open>A string is falsy in a JavaScript condition exactly when it is empty.\<close>

definition truthy :: "string \<Rightarrow> bool" where
  "truthy s = (s \<noteq> [])"

section \<open>The store (src/store/conversationStore.ts)\<close>

subsection \<open>Sessions and the state of the store\<close>

text \<open>
  \<^verbatim>\<open>Session.tree.nodes\<close> is declared a \<^verbatim>\<open>Map\<close>, but \<^verbatim>\<open>saveCurrentSession\<close> stores an array of
  \<^verbatim>\<open>[id, node]\<close> pairs there (\<^verbatim>\<open>nodesArray as any\<close>), so a stored tree holds one or the other:
  \<open>NodesMap\<close> or \<open>NodesArray\<close>. A map built by \<^verbatim>\<open>importSession\<close> comes from parsed JSON, whose
  entries are not checked: a key is whatever stood first in the entry (a string, or a
  number), a value whatever stood second (a node object, or an \<^verbatim>\<open>[id, node]\<close> array, which
  can carry a \<^verbatim>\<open>name\<close> property once \<^verbatim>\<open>importSession\<close> has assigned one).
\<close>

datatype MapKey = KeyStr string | KeyNum nat

datatype MapVal =
    NodeVal ConversationNode
  | PairVal string ConversationNode "string option"

datatype StoredNodes =
    NodesMap "(MapKey \<times> MapVal) list"
  | NodesArray "(string \<times> ConversationNode) list"

record StoredTree =
  stored_nodes :: StoredNodes
  stored_rootIds :: "string list"

record Session =
  session_id :: string
  session_name :: string
  createdAt :: nat
  updatedAt :: nat
  session_tree :: StoredTree

record ConversationState =
  tree :: ConversationTree
  currentSessionId :: "string option"
  sessions :: "(string \<times> Session) list"

definition initialTree :: ConversationTree where
  "initialTree = \<lparr> nodes = [], rootIds = [] \<rparr>"

definition initialState :: ConversationState where
  "initialState = \<lparr> tree = initialTree, currentSessionId = None, sessions = [] \<rparr>"

subsection \<open>The environment of a call\<close>

text \<open>
  What a call reads from outside the store: the clock (\<^verbatim>\<open>Date.now()\<close>), the
  characters \<^verbatim>\<open>Math.random().toString(36).slice(2, 11)\<close> (at most nine) and the text
  \<^verbatim>\<open>new Date().toLocaleString()\<close>. One call of the store's interface reads one
  environment: the clock does not advance during a call, and every call below draws at most
  one random number. Writes to \<^verbatim>\<open>localStorage\<close> are not modelled: the functions below never
  read it back, and a failing write is caught and logged where it happens.
\<close>

record Env =
  now :: nat
  random_digits :: string
  locale_time :: string

fun show_nat :: "nat \<Rightarrow> string" where
  "show_nat n =
     (if n < 10 then [''0123456789'' ! n]
      else show_nat (n div 10) @ [''0123456789'' ! (n mod 10)])"

declare show_nat.simps [simp del]

definition newSessionId :: "Env \<Rightarrow> string" where
  "newSessionId env = ''session-'' @ show_nat (now env) @ ''-'' @ random_digits env"

subsection \<open>saveCurrentSession, saveToStorage\<close>

definition saveCurrentSession ::
  "Env \<Rightarrow> string option \<Rightarrow> ConversationState \<Rightarrow> string \<times> ConversationState" where
  "saveCurrentSession env name_arg state =
     (let sessionId =
            (case currentSessionId state of
               None \<Rightarrow> newSessionId env
             | Some c \<Rightarrow> if truthy c then c else newSessionId env);
          sessionName =
            (case name_arg of
               None \<Rightarrow> ''Session '' @ locale_time env
             | Some n \<Rightarrow> if truthy n then n else ''Session '' @ locale_time env);
          nodesArray = nodes (tree state);
          session =
            \<lparr> session_id = sessionId,
              session_name = sessionName,
              createdAt =
                (case Map_get (sessions state) sessionId of
                   None \<Rightarrow> now env
                 | Some s \<Rightarrow> if createdAt s \<noteq> 0 then createdAt s else now env),
              updatedAt = now env,
              session_tree =
                \<lparr> stored_nodes = NodesArray nodesArray,
                  stored_rootIds = rootIds (tree state) \<rparr> \<rparr>;
          newSessions = Map_set (sessions state) sessionId session
      in (sessionId, state\<lparr> currentSessionId := Some sessionId, sessions := newSessions \<rparr>))"

definition saveToStorage :: "Env \<Rightarrow> ConversationState \<Rightarrow> ConversationState" where
  "saveToStorage env state = snd (saveCurrentSession env None state)"

subsection \<open>addNode, updateNode, deleteNode\<close>

text \<open>
  The store is made by zustand's \<^verbatim>\<open>create((set, get) => ...)\<close>. \<^verbatim>\<open>get()\<close> returns the
  current state. \<^verbatim>\<open>set(f)\<close> calls \<^verbatim>\<open>f\<close> on the current state; when \<^verbatim>\<open>f\<close> returns that very
  state, nothing changes; otherwise the fields that \<^verbatim>\<open>f\<close> returned are written over the
  state that is current when \<^verbatim>\<open>f\<close> returns
  (\<^verbatim>\<open>state = Object.assign({}, state, nextState)\<close>). Each function below takes the state of
  the store and returns the state that the call leaves.
\<close>

definition addNode :: "Env \<Rightarrow> ConversationNode \<Rightarrow> ConversationState \<Rightarrow> ConversationState" where
  "addNode env node state =
     (let newNodes = Map_set (nodes (tree state)) (node_id node) node;
          as_root =
            state\<lparr> tree := \<lparr> nodes = newNodes,
                             rootIds = rootIds (tree state) @ [node_id node] \<rparr> \<rparr>
      in saveToStorage env
           (case parentId node of
              None \<Rightarrow> as_root
            | Some p \<Rightarrow>
                if truthy p
                then state\<lparr> tree :=
                       \<lparr> nodes =
                           (case Map_get newNodes p of
                              Some parent \<Rightarrow>
                                Map_set newNodes p
                                  (parent\<lparr> childrenIds := childrenIds parent @ [node_id node] \<rparr>)
                            | None \<Rightarrow> newNodes),
                         rootIds = rootIds (tree state) \<rparr> \<rparr>
                else as_root))"

text \<open>
  \<^verbatim>\<open>Partial<ConversationNode>\<close>: every field may be absent (\<open>None\<close>), and
  \<^verbatim>\<open>{ ...node, ...updates }\<close> takes each field from \<^verbatim>\<open>updates\<close> where it is present.
\<close>

record NodeUpdates =
  upd_id :: "string option"
  upd_name :: "string option"
  upd_question :: "string option"
  upd_answer :: "string option"
  upd_answerSections :: "AnswerSection list option"
  upd_parentId :: "string option option"
  upd_childrenIds :: "string list option"
  upd_context :: "string list option"
  upd_timestamp :: "nat option"
  upd_position :: "(int \<times> int) option"
  upd_isCollapsed :: "bool option"
  upd_selectedSectionIndexFromParent :: "int option"

definition spread_field :: "'a \<Rightarrow> 'a option \<Rightarrow> 'a" where
  "spread_field old new = (case new of None \<Rightarrow> old | Some v \<Rightarrow> v)"

definition spread :: "ConversationNode \<Rightarrow> NodeUpdates \<Rightarrow> ConversationNode" where
  "spread node updates =
     \<lparr> node_id = spread_field (node_id node) (upd_id updates),
       name = spread_field (name node) (upd_name updates),
       question = spread_field (question node) (upd_question updates),
       answer = spread_field (answer node) (upd_answer updates),
       answerSections =
         (case upd_answerSections updates of None \<Rightarrow> answerSections node | Some s \<Rightarrow> Some s),
       parentId = spread_field (parentId node) (upd_parentId updates),
       childrenIds = spread_field (childrenIds node) (upd_childrenIds updates),
       node_context = spread_field (node_context node) (upd_context updates),
       timestamp = spread_field (timestamp node) (upd_timestamp updates),
       position = spread_field (position node) (upd_position updates),
       isCollapsed = spread_field (isCollapsed node) (upd_isCollapsed updates),
       selectedSectionIndexFromParent =
         (case upd_selectedSectionIndexFromParent updates of
            None \<Rightarrow> selectedSectionIndexFromParent node
          | Some i \<Rightarrow> Some i) \<rparr>"

definition updateNode ::
  "Env \<Rightarrow> string \<Rightarrow> NodeUpdates \<Rightarrow> ConversationState \<Rightarrow> ConversationState" where
  "updateNode env nodeId updates state =
     saveToStorage env
       (case Map_get (nodes (tree state)) nodeId of
          None \<Rightarrow> state
        | Some node \<Rightarrow>
            state\<lparr> tree := (tree state)\<lparr> nodes :=
              Map_set (nodes (tree state)) nodeId (spread node updates) \<rparr> \<rparr>)"

text \<open>
  \<^verbatim>\<open>deleteNode\<close> calls itself for every child from inside the function it hands to \<^verbatim>\<open>set\<close>.
  Each nested call runs on the state of the store at that moment and commits its own
  result; the outer function then returns the tree it computed from the state it was
  called on, and \<^verbatim>\<open>set\<close> writes that tree over whatever the nested calls left. The first
  argument bounds the depth of the nested calls (the call stack); \<open>None\<close> is a call that
  exceeds it.
\<close>

fun forEach :: "('a \<Rightarrow> 's \<Rightarrow> 's option) \<Rightarrow> 'a list \<Rightarrow> 's \<Rightarrow> 's option" where
  "forEach f [] s = Some s"
| "forEach f (x # xs) s = (case f x s of None \<Rightarrow> None | Some s' \<Rightarrow> forEach f xs s')"

primrec deleteNode ::
  "nat \<Rightarrow> Env \<Rightarrow> string \<Rightarrow> ConversationState \<Rightarrow> ConversationState option" where
  "deleteNode 0 env nodeId state = None"
| "deleteNode (Suc depth) env nodeId state =
     (case Map_get (nodes (tree state)) nodeId of
        None \<Rightarrow> Some (saveToStorage env state)
      | Some node \<Rightarrow>
          (let newNodes = Map_delete (nodes (tree state)) nodeId;
               unlinked =
                 (case parentId node of
                    None \<Rightarrow> newNodes
                  | Some p \<Rightarrow>
                      if truthy p
                      then (case Map_get newNodes p of
                              Some parent \<Rightarrow>
                                Map_set newNodes p
                                  (parent\<lparr> childrenIds :=
                                     filter (\<lambda>childId. childId \<noteq> nodeId) (childrenIds parent) \<rparr>)
                            | None \<Rightarrow> newNodes)
                      else newNodes)
           in case forEach (deleteNode depth env) (childrenIds node) state of
                None \<Rightarrow> None
              | Some state' \<Rightarrow>
                  Some (saveToStorage env
                    (state'\<lparr> tree :=
                       \<lparr> nodes = unlinked,
                         rootIds = filter (\<lambda>rootId. rootId \<noteq> nodeId) (rootIds (tree state)) \<rparr> \<rparr>))))"

subsection \<open>generateNodeName\<close>

definition generateNodeName :: "ConversationState \<Rightarrow> string option \<Rightarrow> string" where
  "generateNodeName state parent_id =
     (case parent_id of
        None \<Rightarrow> ''Question '' @ show_nat (length (rootIds (tree state)) + 1)
      | Some p \<Rightarrow>
          (case Map_get (nodes (tree state)) p of
             Some parent \<Rightarrow> ''Follow-up '' @ show_nat (length (childrenIds parent) + 1)
           | None \<Rightarrow> ''Node '' @ show_nat (Map_size (nodes (tree state)) + 1)))"

subsection \<open>createNewSession, deleteSession\<close>

text \<open>
  Both functions read \<^verbatim>\<open>const state = get()\<close> first and build the new session mapping from
  \<^verbatim>\<open>state.sessions\<close> later, after the calls they make in between: the state objects of the
  store are never changed in place, so \<^verbatim>\<open>state.sessions\<close> is still the mapping of the moment
  \<^verbatim>\<open>get()\<close> was called. \<^verbatim>\<open>set({...})\<close> then writes the fields it is given over the current
  state.
\<close>

definition createNewSession :: "Env \<Rightarrow> ConversationState \<Rightarrow> string \<times> ConversationState" where
  "createNewSession env state =
     (let current =
            (if (case currentSessionId state of None \<Rightarrow> False | Some c \<Rightarrow> truthy c)
                \<and> Map_size (nodes (tree state)) > 0
             then snd (saveCurrentSession env None state)
             else state);
          newId = newSessionId env;
          newSession =
            \<lparr> session_id = newId,
              session_name = ''New Session '' @ locale_time env,
              createdAt = now env,
              updatedAt = now env,
              session_tree = \<lparr> stored_nodes = NodesMap [], stored_rootIds = [] \<rparr> \<rparr>;
          newSessions = Map_set (sessions state) newId newSession
      in (newId,
          current\<lparr> tree := initialTree, currentSessionId := Some newId,
                   sessions := newSessions \<rparr>))"

definition deleteSession :: "Env \<Rightarrow> string \<Rightarrow> ConversationState \<Rightarrow> ConversationState" where
  "deleteSession env sessionId state =
     (let current =
            (if currentSessionId state = Some sessionId
             then snd (createNewSession env state)
             else state);
          newSessions = Map_delete (sessions state) sessionId
      in current\<lparr> sessions := newSessions \<rparr>)"

subsection \<open>exportSession, importSession\<close>

text \<open>
  The exported text is JSON. It is modelled by the data that \<^verbatim>\<open>JSON.parse\<close> reads from it:
  \<open>Unparseable\<close> for a text that \<^verbatim>\<open>JSON.parse\<close> rejects, \<open>JsonNull\<close> for the document
  \<^verbatim>\<open>null\<close> (reading \<^verbatim>\<open>data.session\<close> of it throws a \<^verbatim>\<open>TypeError\<close>), and otherwise the
  document with the fields the code reads, each of them possibly absent or \<^verbatim>\<open>null\<close> (a
  number, a string, a truth value or an array has none of them). \<^verbatim>\<open>JSON.stringify\<close> followed by \<^verbatim>\<open>JSON.parse\<close> gives back strings, numbers,
  arrays and the fields of objects as they were; a property set on an array (the \<^verbatim>\<open>name\<close> of
  a \<open>PairVal\<close>) is not written. An entry of \<^verbatim>\<open>tree.nodes\<close> is a \<^verbatim>\<open>[key, value]\<close> array. A node
  object without a \<^verbatim>\<open>name\<close> is a node whose \<^verbatim>\<open>name\<close> is empty: the code only asks
  \<^verbatim>\<open>!node.name\<close>, which holds for both. Documents whose fields have other types than the
  ones below (a \<^verbatim>\<open>tree.nodes\<close> that is not a list of entries, say) are not modelled.
\<close>

record TreeData =
  data_nodes :: "(MapKey \<times> MapVal) list option"
  data_rootIds :: "string list option"

record SessionData =
  data_id :: "string option"
  data_name :: "string option"
  data_createdAt :: "nat option"
  data_updatedAt :: "nat option"
  data_tree :: "TreeData option"

record ExportData =
  data_version :: "string option"
  data_exportedAt :: "nat option"
  data_session :: "SessionData option"

datatype JsonText = Unparseable | JsonNull | Json ExportData

datatype error = SyntaxError | TypeError | Error string

text \<open>
  \<^verbatim>\<open>Array.from(session.tree.nodes.entries())\<close>: the entries of a \<^verbatim>\<open>Map\<close> are its
  \<^verbatim>\<open>[key, value]\<close> pairs; the entries of an array are its \<^verbatim>\<open>[index, element]\<close> pairs, and an
  element of the array that \<^verbatim>\<open>saveCurrentSession\<close> stored is an \<^verbatim>\<open>[id, node]\<close> pair itself.
\<close>

fun json_value :: "MapVal \<Rightarrow> MapVal" where
  "json_value (NodeVal node) = NodeVal node"
| "json_value (PairVal k node name_property) = PairVal k node None"

fun entries :: "StoredNodes \<Rightarrow> (MapKey \<times> MapVal) list" where
  "entries (NodesMap m) = map (\<lambda>(k, v). (k, json_value v)) m"
| "entries (NodesArray a) =
     map (\<lambda>(i, (k, node)). (KeyNum i, PairVal k node None)) (List.enumerate 0 a)"

definition exportSession :: "Env \<Rightarrow> string \<Rightarrow> ConversationState \<Rightarrow> error + JsonText" where
  "exportSession env sessionId state =
     (case Map_get (sessions state) sessionId of
        None \<Rightarrow> Inl (Error ''Session not found'')
      | Some session \<Rightarrow>
          (let nodesArray = entries (stored_nodes (session_tree session));
               exportData =
                 \<lparr> data_version = Some ''1.0'',
                   data_exportedAt = Some (now env),
                   data_session = Some
                     \<lparr> data_id = Some (session_id session),
                       data_name = Some (session_name session),
                       data_createdAt = Some (createdAt session),
                       data_updatedAt = Some (updatedAt session),
                       data_tree = Some
                         \<lparr> data_nodes = Some nodesArray,
                           data_rootIds = Some (stored_rootIds (session_tree session)) \<rparr> \<rparr> \<rparr>
           in Inr (Json exportData)))"

text \<open>\<^verbatim>\<open>new Map(nodesArray)\<close> sets the entries one after the other.\<close>

definition new_Map :: "('k \<times> 'v) list \<Rightarrow> ('k \<times> 'v) list" where
  "new_Map pairs = fold (\<lambda>(k, v) m. Map_set m k v) pairs []"

text \<open>
  The function given to \<^verbatim>\<open>nodes.forEach\<close>: a value without a (non-empty) \<^verbatim>\<open>name\<close> gets one
  from \<^verbatim>\<open>generateNodeName(node.parentId)\<close>. For an \<^verbatim>\<open>[id, node]\<close> array \<^verbatim>\<open>node.parentId\<close> is
  \<^verbatim>\<open>undefined\<close>, which is not \<^verbatim>\<open>null\<close> and not the key of a node, so the name is
  \<^verbatim>\<open>Node\<close> and the size of the active tree plus one.
\<close>

fun fill_name :: "ConversationState \<Rightarrow> MapVal \<Rightarrow> MapVal" where
  "fill_name state (NodeVal node) =
     (if \<not> truthy (name node)
      then NodeVal (node\<lparr> name := generateNodeName state (parentId node) \<rparr>)
      else NodeVal node)"
| "fill_name state (PairVal k node name_property) =
     (if \<not> (case name_property of None \<Rightarrow> False | Some n \<Rightarrow> truthy n)
      then PairVal k node (Some (''Node '' @ show_nat (Map_size (nodes (tree state)) + 1)))
      else PairVal k node name_property)"

definition importSession ::
  "Env \<Rightarrow> JsonText \<Rightarrow> ConversationState \<Rightarrow> (error + string) \<times> ConversationState" where
  "importSession env sessionData state =
     (case sessionData of
        Unparseable \<Rightarrow> (Inl SyntaxError, state)
      | JsonNull \<Rightarrow> (Inl TypeError, state)
      | Json data \<Rightarrow>
          (case data_session data of
             None \<Rightarrow> (Inl (Error ''Invalid session file format''), state)
           | Some importedSession \<Rightarrow>
               (case data_tree importedSession of
                  None \<Rightarrow> (Inl (Error ''Invalid session file format''), state)
                | Some imported_tree \<Rightarrow>
                    (let nodesArray =
                           (case data_nodes imported_tree of None \<Rightarrow> [] | Some a \<Rightarrow> a);
                         named = map (\<lambda>(k, v). (k, fill_name state v)) (new_Map nodesArray);
                         newId = newSessionId env;
                         session =
                           \<lparr> session_id = newId,
                             session_name =
                               (case data_name importedSession of
                                  None \<Rightarrow> ''Imported Session '' @ locale_time env
                                | Some n \<Rightarrow>
                                    if truthy n then n
                                    else ''Imported Session '' @ locale_time env),
                             createdAt =
                               (case data_createdAt importedSession of
                                  None \<Rightarrow> now env
                                | Some c \<Rightarrow> if c \<noteq> 0 then c else now env),
                             updatedAt = now env,
                             session_tree =
                               \<lparr> stored_nodes = NodesMap named,
                                 stored_rootIds =
                                   (case data_rootIds imported_tree of
                                      None \<Rightarrow> []
                                    | Some r \<Rightarrow> r) \<rparr> \<rparr>;
                         newSessions = Map_set (sessions state) newId session
                     in (Inr newId, state\<lparr> sessions := newSessions \<rparr>)))))"

section \<open>The context builder (src/utils/contextBuilder.ts)\<close>

text \<open>
  \<^verbatim>\<open>parseAnswerIntoSections\<close> (src/utils/answerParser.ts) is a parameter of the model: the
  builder only indexes the list it returns and reads the \<^verbatim>\<open>text\<close> of the section it finds, so
  what is proved below holds for every segmentation function. \<^verbatim>\<open>selectedSectionIndex?: number\<close>
  is an optional integer; \<^verbatim>\<open>sections[i]\<close> is \<^verbatim>\<open>undefined\<close> unless \<open>0 \<le> i < length sections\<close>.
\<close>

fun join :: "string \<Rightarrow> string list \<Rightarrow> string" where
  "join sep [] = []"
| "join sep [x] = x"
| "join sep (x # y # ys) = x @ sep @ join sep (y # ys)"

definition paragraph_break :: string where
  "paragraph_break = [CHR 0x0A, CHR 0x0A]"

definition element_at :: "'a list \<Rightarrow> int \<Rightarrow> 'a option" where
  "element_at xs i = (if 0 \<le> i \<and> nat i < length xs then Some (xs ! nat i) else None)"

definition answer_part ::
  "(string \<Rightarrow> AnswerSection list) \<Rightarrow> ConversationNode \<Rightarrow> bool \<Rightarrow> int option \<Rightarrow> string" where
  "answer_part parseAnswerIntoSections chainNode isLastNode selectedSectionIndex =
     (case (isLastNode, selectedSectionIndex) of
        (True, Some i) \<Rightarrow>
          (let sections =
                 (case answerSections chainNode of
                    None \<Rightarrow> parseAnswerIntoSections (answer chainNode)
                  | Some cached \<Rightarrow>
                      if length cached = 0 then parseAnswerIntoSections (answer chainNode)
                      else cached)
           in case element_at sections i of
                Some selectedSection \<Rightarrow> ''A (selected section): '' @ section_text selectedSection
              | None \<Rightarrow> ''A: '' @ answer chainNode)
      | _ \<Rightarrow> ''A: '' @ answer chainNode)"

definition buildContext ::
  "(string \<Rightarrow> AnswerSection list) \<Rightarrow> ConversationNode option \<Rightarrow> ConversationNode list
     \<Rightarrow> int option \<Rightarrow> string" where
  "buildContext parseAnswerIntoSections parentNode chain selectedSectionIndex =
     (if length chain = 0 then []
      else
        (let isContinuingFromChild =
               (case parentNode of
                  None \<Rightarrow> False
                | Some p \<Rightarrow> parentId p \<noteq> None \<and> selectedSectionIndex = None);
             contextParts =
               (if isContinuingFromChild
                then (let immediateParent = chain ! (length chain - 1)
                      in [''Q: '' @ question immediateParent, ''A: '' @ answer immediateParent])
                else concat (map (\<lambda>(index, chainNode).
                       [''Q: '' @ question chainNode,
                        answer_part parseAnswerIntoSections chainNode
                          (index = length chain - 1) selectedSectionIndex])
                     (List.enumerate 0 chain)))
         in join paragraph_break contextParts))"

text \<open>
  The sections that \<^verbatim>\<open>buildContext\<close> indexes for the last node of the chain: the cached
  \<^verbatim>\<open>answerSections\<close>, or the segmentation of the answer when the cache is absent or empty
  (\<^verbatim>\<open>!sections || sections.length === 0\<close>).
\<close>

definition effective_sections ::
  "(string \<Rightarrow> AnswerSection list) \<Rightarrow> ConversationNode \<Rightarrow> AnswerSection list" where
  "effective_sections seg n =
     (case answerSections n of
        None \<Rightarrow> seg (answer n)
      | Some cached \<Rightarrow> if cached = [] then seg (answer n) else cached)"

section \<open>The layout (src/utils/layout.ts)\<close>

text \<open>
  Coordinates are integers: the code only adds and multiplies whole numbers. The first
  argument of \<open>calculateDepth\<close> bounds the depth of its recursion (the call stack); \<open>None\<close> is
  a call that exceeds it. \<open>depthMap\<close> is the memo table, passed on from call to call.
\<close>

definition NODE_WIDTH :: int where
  "NODE_WIDTH = 400"

definition HORIZONTAL_SPACING :: int where
  "HORIZONTAL_SPACING = 500"

definition VERTICAL_SPACING :: int where
  "VERTICAL_SPACING = 350"

definition startX :: int where
  "startX = 300"

definition startY :: int where
  "startY = 100"

primrec calculateDepth ::
  "nat \<Rightarrow> ConversationTree \<Rightarrow> string \<Rightarrow> (string \<times> nat) list
     \<Rightarrow> (nat \<times> (string \<times> nat) list) option" where
  "calculateDepth 0 t nodeId depthMap = None"
| "calculateDepth (Suc stack) t nodeId depthMap =
     (case Map_get depthMap nodeId of
        Some depth \<Rightarrow> Some (depth, depthMap)
      | None \<Rightarrow>
          (case Map_get (nodes t) nodeId of
             None \<Rightarrow> Some (0, Map_set depthMap nodeId 0)
           | Some node \<Rightarrow>
               (case parentId node of
                  None \<Rightarrow> Some (0, Map_set depthMap nodeId 0)
                | Some p \<Rightarrow>
                    if truthy p
                    then (case calculateDepth stack t p depthMap of
                            None \<Rightarrow> None
                          | Some (parent_depth, depthMap') \<Rightarrow>
                              Some (parent_depth + 1,
                                    Map_set depthMap' nodeId (parent_depth + 1)))
                    else Some (0, Map_set depthMap nodeId 0))))"

text \<open>
  \<^verbatim>\<open>tree.nodes.forEach\<close>: the depth of every node, in the order of the node mapping, and its
  id pushed onto the list of that depth (a depth met for the first time gets a new list
  at the end of \<open>nodesByDepth\<close>).
\<close>

fun group_by_depth ::
  "nat \<Rightarrow> ConversationTree \<Rightarrow> (string \<times> ConversationNode) list \<Rightarrow> (string \<times> nat) list
     \<Rightarrow> (nat \<times> string list) list \<Rightarrow> (nat \<times> string list) list option" where
  "group_by_depth stack t [] depthMap nodesByDepth = Some nodesByDepth"
| "group_by_depth stack t ((k, node) # rest) depthMap nodesByDepth =
     (case calculateDepth stack t (node_id node) depthMap of
        None \<Rightarrow> None
      | Some (depth, depthMap') \<Rightarrow>
          group_by_depth stack t rest depthMap'
            (Map_set nodesByDepth depth
               ((case Map_get nodesByDepth depth of None \<Rightarrow> [] | Some ids \<Rightarrow> ids)
                @ [node_id node])))"

text \<open>\<^verbatim>\<open>nodesAtDepth.forEach((nodeId, index) => positions.set(nodeId, ...))\<close> for one depth.\<close>

definition place_level ::
  "nat \<Rightarrow> string list \<Rightarrow> (string \<times> int \<times> int) list \<Rightarrow> (string \<times> int \<times> int) list" where
  "place_level depth nodesAtDepth positions =
     (let levelY = startY + int depth * VERTICAL_SPACING
      in fold (\<lambda>(index, nodeId) positions.
                 (let horizontalOffset = int depth * (NODE_WIDTH + 100)
                  in Map_set positions nodeId
                       (startX + int index * (NODE_WIDTH + HORIZONTAL_SPACING) + horizontalOffset,
                        levelY)))
           (List.enumerate 0 nodesAtDepth) positions)"

definition calculateSimpleLayout ::
  "nat \<Rightarrow> ConversationTree \<Rightarrow> (string \<times> int \<times> int) list option" where
  "calculateSimpleLayout stack t =
     (if Map_size (nodes t) = 0 then Some []
      else
        (case group_by_depth stack t (nodes t) [] [] of
           None \<Rightarrow> None
         | Some nodesByDepth \<Rightarrow>
             (let sortedDepths = sort (map fst nodesByDepth)
              in Some (fold (\<lambda>depth positions.
                         place_level depth
                           (case Map_get nodesByDepth depth of None \<Rightarrow> [] | Some ids \<Rightarrow> ids)
                           positions)
                       sortedDepths []))))"

definition calculateAutoLayout ::
  "nat \<Rightarrow> ConversationTree \<Rightarrow> (string \<times> int \<times> int) list option" where
  "calculateAutoLayout stack t =
     (if Map_size (nodes t) = 0 then Some [] else calculateSimpleLayout stack t)"

text \<open>
  For the statement about the layout: \<open>hops n m k = Some d\<close> when following \<^verbatim>\<open>parentId\<close> from
  the node stored under \<open>k\<close> arrives, after \<open>d\<close> steps (\<open>d < n\<close>), at a node whose \<^verbatim>\<open>parentId\<close>
  is \<^verbatim>\<open>null\<close>; \<open>depth_group t d\<close> is the list of the ids at depth \<open>d\<close>, in the order of the
  node mapping; \<open>own_ids t\<close> says that the mapping has one entry per key, that every node is
  stored under its own id and that no \<^verbatim>\<open>parentId\<close> is the empty string.
\<close>

fun hops :: "nat \<Rightarrow> (string \<times> ConversationNode) list \<Rightarrow> string \<Rightarrow> nat option" where
  "hops 0 m k = None"
| "hops (Suc n) m k =
     (case Map_get m k of
        None \<Rightarrow> None
      | Some node \<Rightarrow>
          (case parentId node of None \<Rightarrow> Some 0 | Some p \<Rightarrow> map_option Suc (hops n m p)))"

definition depth_group :: "ConversationTree \<Rightarrow> nat \<Rightarrow> string list" where
  "depth_group t d =
     filter (\<lambda>k. hops (Map_size (nodes t)) (nodes t) k = Some d) (map fst (nodes t))"

definition own_ids :: "ConversationTree \<Rightarrow> bool" where
  "own_ids t =
     (distinct (map fst (nodes t))
      \<and> list_all (\<lambda>(k, node). node_id node = k \<and> parentId node \<noteq> Some []) (nodes t))"

text \<open>
  For the proofs: the entries that \<open>place_level\<close> sets for one depth, in order.
\<close>

definition level_entries :: "nat \<Rightarrow> string list \<Rightarrow> (string \<times> int \<times> int) list" where
  "level_entries d ids =
     map (\<lambda>(i, k). (k, (startX + int i * (NODE_WIDTH + HORIZONTAL_SPACING)
                          + int d * (NODE_WIDTH + 100),
                        startY + int d * VERTICAL_SPACING)))
       (List.enumerate 0 ids)"

section \<open>The structural invariants and the admissible calls\<close>

text \<open>
  The four invariants of the data model, as predicates on a tree. \<open>reaches_root n m k\<close>
  follows \<^verbatim>\<open>parentId\<close> from the node stored under \<open>k\<close> and arrives at a node without parent
  after visiting at most \<open>n\<close> nodes.
\<close>

fun reaches_root :: "nat \<Rightarrow> (string \<times> ConversationNode) list \<Rightarrow> string \<Rightarrow> bool" where
  "reaches_root 0 m k = False"
| "reaches_root (Suc n) m k =
     (case Map_get m k of
        None \<Rightarrow> False
      | Some node \<Rightarrow> (case parentId node of None \<Rightarrow> True | Some p \<Rightarrow> reaches_root n m p))"

definition invariant_1 :: "ConversationTree \<Rightarrow> bool" where
  "invariant_1 t =
     list_all (\<lambda>(k, node).
        case parentId node of
          None \<Rightarrow> True
        | Some p \<Rightarrow>
            (case Map_get (nodes t) p of
               None \<Rightarrow> False
             | Some parent \<Rightarrow> node_id node \<in> set (childrenIds parent)))
       (nodes t)"

definition invariant_2 :: "ConversationTree \<Rightarrow> bool" where
  "invariant_2 t =
     (set (rootIds t) = set (map fst (filter (\<lambda>(k, node). parentId node = None) (nodes t))))"

definition invariant_3 :: "ConversationTree \<Rightarrow> bool" where
  "invariant_3 t =
     list_all (\<lambda>(k, node). reaches_root (Map_size (nodes t)) (nodes t) k) (nodes t)"

definition invariant_4 :: "ConversationTree \<Rightarrow> bool" where
  "invariant_4 t =
     list_all (\<lambda>(k, node).
        distinct (childrenIds node)
        \<and> list_all (\<lambda>c. Map_get (nodes t) c \<noteq> None) (childrenIds node))
       (nodes t)"

text \<open>
  A call of the tree store, and the calls that keep the invariants: \<^verbatim>\<open>addNode\<close> of a node
  with a new id, without children, whose \<^verbatim>\<open>parentId\<close> is \<^verbatim>\<open>null\<close> or the (non-empty) id of a
  node of the tree; \<^verbatim>\<open>updateNode\<close> with updates that supply none of \<^verbatim>\<open>id\<close>, \<^verbatim>\<open>parentId\<close>,
  \<^verbatim>\<open>childrenIds\<close>; \<^verbatim>\<open>deleteNode\<close> of an unknown id or of a node without children.
\<close>

datatype Call =
    AddNode ConversationNode
  | UpdateNode string NodeUpdates
  | DeleteNode string

fun admissible :: "ConversationTree \<Rightarrow> Call \<Rightarrow> bool" where
  "admissible t (AddNode node) =
     (Map_get (nodes t) (node_id node) = None \<and> childrenIds node = []
      \<and> (case parentId node of
           None \<Rightarrow> True
         | Some p \<Rightarrow> truthy p \<and> Map_get (nodes t) p \<noteq> None))"
| "admissible t (UpdateNode nodeId updates) =
     (upd_id updates = None \<and> upd_parentId updates = None \<and> upd_childrenIds updates = None)"
| "admissible t (DeleteNode nodeId) =
     (case Map_get (nodes t) nodeId of None \<Rightarrow> True | Some node \<Rightarrow> childrenIds node = [])"

fun call :: "nat \<Rightarrow> Env \<Rightarrow> Call \<Rightarrow> ConversationState \<Rightarrow> ConversationState option" where
  "call stack env (AddNode node) state = Some (addNode env node state)"
| "call stack env (UpdateNode nodeId updates) state = Some (updateNode env nodeId updates state)"
| "call stack env (DeleteNode nodeId) state = deleteNode stack env nodeId state"

text \<open>
  A sequence of calls, each with the environment it reads. The run stops with \<open>None\<close> at a
  call that is not admissible for the tree it meets, or that exceeds the call stack.
\<close>

fun admissible_run ::
  "nat \<Rightarrow> (Env \<times> Call) list \<Rightarrow> ConversationState \<Rightarrow> ConversationState option" where
  "admissible_run stack [] state = Some state"
| "admissible_run stack ((env, c) # cs) state =
     (if admissible (tree state) c
      then (case call stack env c state of
              None \<Rightarrow> None
            | Some state' \<Rightarrow> admissible_run stack cs state')
      else None)"

text \<open>
  For the proofs: in the order of the node mapping every parent stands before its children
  (\<open>seen\<close> holds the keys passed so far), and the well-formed trees.
\<close>

fun parents_first :: "string list \<Rightarrow> (string \<times> ConversationNode) list \<Rightarrow> bool" where
  "parents_first seen [] = True"
| "parents_first seen ((k, node) # rest) =
     ((case parentId node of None \<Rightarrow> True | Some p \<Rightarrow> truthy p \<and> p \<in> set seen)
      \<and> parents_first (k # seen) rest)"

definition links :: "(string \<Rightarrow> ConversationNode option) \<Rightarrow> bool" where
  "links M =
     (\<forall>k node. M k = Some node \<longrightarrow>
        node_id node = k
        \<and> distinct (childrenIds node)
        \<and> (\<forall>c. c \<in> set (childrenIds node)
              \<longleftrightarrow> (\<exists>child. M c = Some child \<and> parentId child = Some k))
        \<and> (\<forall>p. parentId node = Some p \<longrightarrow> M p \<noteq> None))"

definition wf_tree :: "ConversationTree \<Rightarrow> bool" where
  "wf_tree t =
     (distinct (map fst (nodes t))
      \<and> parents_first [] (nodes t)
      \<and> links (Map_get (nodes t))
      \<and> set (rootIds t) = {k. \<exists>node. Map_get (nodes t) k = Some node \<and> parentId node = None})"


section \<open>Values used in the examples\<close>

definition example_env :: Env where
  "example_env = \<lparr> now = 1700000000000, random_digits = ''k3j9x0q2a'',
                   locale_time = ''11/14/2023, 10:13:20 PM'' \<rparr>"

definition example_node :: "string \<Rightarrow> string option \<Rightarrow> ConversationNode" where
  "example_node i p =
     \<lparr> node_id = i, name = ''Question 1'', question = ''q'', answer = ''a'',
       answerSections = None, parentId = p, childrenIds = [], node_context = [],
       timestamp = 0, position = (100, 100), isCollapsed = False,
       selectedSectionIndexFromParent = None \<rparr>"

definition state_A :: ConversationState where
  "state_A = addNode example_env (example_node ''A'' None) initialState"

definition state_AB :: ConversationState where
  "state_AB = addNode example_env (example_node ''B'' (Some ''A'')) state_A"

definition no_updates :: NodeUpdates where
  "no_updates =
     \<lparr> upd_id = None, upd_name = None, upd_question = None, upd_answer = None,
       upd_answerSections = None, upd_parentId = None, upd_childrenIds = None,
       upd_context = None, upd_timestamp = None, upd_position = None,
       upd_isCollapsed = None, upd_selectedSectionIndexFromParent = None \<rparr>"

definition example_env2 :: Env where
  "example_env2 = \<lparr> now = 1700000005000, random_digits = ''p0c7m2zq1'',
                    locale_time = ''11/14/2023, 10:13:25 PM'' \<rparr>"

definition state_S :: ConversationState where
  "state_S = snd (createNewSession example_env initialState)"

definition example_tree_data :: TreeData where
  "example_tree_data =
     \<lparr> data_nodes = Some [(KeyStr ''A'', NodeVal (example_node ''A'' None))],
       data_rootIds = Some [''A''] \<rparr>"

definition example_session_data :: SessionData where
  "example_session_data =
     \<lparr> data_id = Some ''session-1-abcdefghi'', data_name = Some ''Notes'',
       data_createdAt = Some 1, data_updatedAt = Some 2,
       data_tree = Some example_tree_data \<rparr>"

definition example_data :: ExportData where
  "example_data =
     \<lparr> data_version = Some ''1.0'', data_exportedAt = Some 1700000001000,
       data_session = Some example_session_data \<rparr>"

text \<open>
  What \<^verbatim>\<open>parseAnswerIntoSections\<close> returns for an answer of one line that has no header and
  no list marker and is already trimmed: one section that holds the whole answer.
\<close>

definition one_section :: "string \<Rightarrow> AnswerSection list" where
  "one_section a = [\<lparr> section_id = ''section-0'', section_text = a, section_index = 0 \<rparr>]"

definition node_B :: ConversationNode where
  "node_B = (example_node ''B'' (Some ''A''))\<lparr> question := ''q2'', answer := ''a2'' \<rparr>"

definition node_empty_cache :: ConversationNode where
  "node_empty_cache = (example_node ''A'' None)\<lparr> answer := ''hello'', answerSections := Some [] \<rparr>"

definition example_calls :: "(Env \<times> Call) list" where
  "example_calls =
     [(example_env, AddNode (example_node ''A'' None)),
      (example_env, AddNode (example_node ''B'' (Some ''A''))),
      (example_env2, UpdateNode ''A'' (no_updates\<lparr> upd_isCollapsed := Some True \<rparr>)),
      (example_env2, DeleteNode ''B'')]"

text \<open>
  The tree that \<^verbatim>\<open>addNode\<close> builds from the empty tree for a node that names itself as its
  parent.
\<close>

definition self_parent_tree :: ConversationTree where
  "self_parent_tree = tree (addNode example_env (example_node ''A'' (Some ''A'')) initialState)"

definition state_imported :: ConversationState where
  "state_imported = snd (importSession example_env2 (Json example_data) state_S)"

section \<open>Properties of the tree store\<close>

subsection \<open>The example values\<close>

lemma example_node_fields [simp]:
  "node_id (example_node i p) = i"
  "parentId (example_node i p) = p"
  "childrenIds (example_node i p) = []"
  "name (example_node i p) = ''Question 1''"
  "question (example_node i p) = ''q''"
  "answer (example_node i p) = ''a''"
  "answerSections (example_node i p) = None"
  by (simp_all add: example_node_def)

lemma example_env_fields:
  "now example_env = 1700000000000"
  "locale_time example_env = ''11/14/2023, 10:13:20 PM''"
  "now example_env2 = 1700000005000"
  "locale_time example_env2 = ''11/14/2023, 10:13:25 PM''"
  by (simp_all add: example_env_def example_env2_def)

lemma newSessionId_example_env:
  "newSessionId example_env = ''session-1700000000000-k3j9x0q2a''"
  by (simp add: newSessionId_def example_env_def show_nat.simps)

lemma newSessionId_example_env2:
  "newSessionId example_env2 = ''session-1700000005000-p0c7m2zq1''"
  by (simp add: newSessionId_def example_env2_def show_nat.simps)

subsection \<open>The tree after each call\<close>

lemma tree_saveToStorage [simp]: "tree (saveToStorage env state) = tree state"
  by (simp add: saveToStorage_def saveCurrentSession_def Let_def)

lemma tree_addNode:
  "tree (addNode env node state) =
     (let newNodes = Map_set (nodes (tree state)) (node_id node) node
      in case parentId node of
           None \<Rightarrow> \<lparr> nodes = newNodes, rootIds = rootIds (tree state) @ [node_id node] \<rparr>
         | Some p \<Rightarrow>
             if truthy p
             then \<lparr> nodes =
                      (case Map_get newNodes p of
                         Some parent \<Rightarrow>
                           Map_set newNodes p
                             (parent\<lparr> childrenIds := childrenIds parent @ [node_id node] \<rparr>)
                       | None \<Rightarrow> newNodes),
                    rootIds = rootIds (tree state) \<rparr>
             else \<lparr> nodes = newNodes, rootIds = rootIds (tree state) @ [node_id node] \<rparr>)"
  by (simp add: addNode_def Let_def split: option.splits)

lemma tree_updateNode:
  "tree (updateNode env nodeId updates state) =
     (case Map_get (nodes (tree state)) nodeId of
        None \<Rightarrow> tree state
      | Some node \<Rightarrow> (tree state)\<lparr> nodes := Map_set (nodes (tree state)) nodeId (spread node updates) \<rparr>)"
  by (simp add: updateNode_def split: option.splits)

lemma deleteNode_tree:
  assumes "deleteNode depth env nodeId state = Some state'"
  shows "tree state' =
     (case Map_get (nodes (tree state)) nodeId of
        None \<Rightarrow> tree state
      | Some node \<Rightarrow>
          \<lparr> nodes =
              (let newNodes = Map_delete (nodes (tree state)) nodeId
               in case parentId node of
                    None \<Rightarrow> newNodes
                  | Some p \<Rightarrow>
                      if truthy p
                      then (case Map_get newNodes p of
                              Some parent \<Rightarrow>
                                Map_set newNodes p
                                  (parent\<lparr> childrenIds :=
                                     filter (\<lambda>childId. childId \<noteq> nodeId) (childrenIds parent) \<rparr>)
                            | None \<Rightarrow> newNodes)
                      else newNodes),
            rootIds = filter (\<lambda>rootId. rootId \<noteq> nodeId) (rootIds (tree state)) \<rparr>)"
proof (cases depth)
  case 0
  with assms show ?thesis by simp
next
  case (Suc d)
  with assms show ?thesis
    by (auto simp: Let_def split: option.splits)
qed

lemma tree_state_A:
  "tree state_A = \<lparr> nodes = [(''A'', example_node ''A'' None)], rootIds = [''A''] \<rparr>"
  by (simp add: state_A_def tree_addNode initialState_def initialTree_def example_node_def)

lemma tree_state_AB:
  "tree state_AB =
     \<lparr> nodes = [(''A'', (example_node ''A'' None)\<lparr> childrenIds := [''B''] \<rparr>),
                (''B'', example_node ''B'' (Some ''A''))],
       rootIds = [''A''] \<rparr>"
  by (simp add: state_AB_def tree_addNode tree_state_A truthy_def example_node_def)

subsection \<open>addNode with an id that is already in the tree\<close>

text \<open>
  Claim C10. When \<^verbatim>\<open>addNode\<close> is called with a node whose id is already a key of the node
  mapping, the entry under that id is overwritten by the new node (no second entry is
  made, and nothing of the old node is kept; only a node that names itself as its parent
  gets its own id appended to its \<^verbatim>\<open>childrenIds\<close>). When the new node's \<^verbatim>\<open>parentId\<close> is
  \<^verbatim>\<open>null\<close>, its id is appended to the root sequence once more, so an id that was a root
  already now occurs twice there.
\<close>

theorem addNode_existing_id:
  assumes "Map_get (nodes (tree state)) (node_id node) = Some old"
  shows "Map_get (nodes (tree (addNode env node state))) (node_id node) =
           Some (if parentId node = Some (node_id node) \<and> truthy (node_id node)
                 then node\<lparr> childrenIds := childrenIds node @ [node_id node] \<rparr>
                 else node)
         \<and> map fst (nodes (tree (addNode env node state))) = map fst (nodes (tree state))
         \<and> (parentId node = None \<longrightarrow>
              rootIds (tree (addNode env node state)) = rootIds (tree state) @ [node_id node]
              \<and> (node_id node \<in> set (rootIds (tree state)) \<longrightarrow>
                    \<not> distinct (rootIds (tree (addNode env node state)))))"
proof -
  have key: "node_id node \<in> fst ` set (nodes (tree state))"
    using assms by (metis map_of_eq_None_iff option.distinct(1))
  have in_keys: "\<And>k v. Map_get (nodes (tree state)) k = Some v \<Longrightarrow> k \<in> fst ` set (nodes (tree state))"
    by (metis map_of_eq_None_iff option.distinct(1))
  show ?thesis
    using key
    by (auto simp: tree_addNode Let_def update_conv' update_keys
             dest: in_keys split: option.splits)
qed

theorem addNode_existing_id_witness:
  "Map_get (nodes (tree state_A)) ''A'' = Some (example_node ''A'' None)
   \<and> Map_get (nodes (tree (addNode example_env (example_node ''A'' None) state_A))) ''A''
       = Some (example_node ''A'' None)
   \<and> rootIds (tree (addNode example_env (example_node ''A'' None) state_A)) = [''A'', ''A'']
   \<and> \<not> distinct (rootIds (tree (addNode example_env (example_node ''A'' None) state_A)))"
  using addNode_existing_id [of state_A "example_node ''A'' None" "example_node ''A'' None" example_env]
  by (simp add: tree_state_A example_node_def)

subsection \<open>updateNode and the structural fields\<close>

text \<open>
  Claim C3, amended. For a node id present in the tree, \<^verbatim>\<open>updateNode(id, updates)\<close> stores the
  merge \<^verbatim>\<open>{ ...node, ...updates }\<close> under that id: each of \<^verbatim>\<open>id\<close>, \<^verbatim>\<open>parentId\<close> and
  \<^verbatim>\<open>childrenIds\<close> keeps its value when \<^verbatim>\<open>updates\<close> does not supply the field, and takes the
  supplied value when it does. For an unknown id the whole tree is unchanged.
\<close>

theorem updateNode_structural_fields:
  "(Map_get (nodes (tree state)) nodeId = Some node \<longrightarrow>
      Map_get (nodes (tree (updateNode env nodeId updates state))) nodeId
        = Some (spread node updates)
      \<and> node_id (spread node updates) = (case upd_id updates of None \<Rightarrow> node_id node | Some v \<Rightarrow> v)
      \<and> parentId (spread node updates)
          = (case upd_parentId updates of None \<Rightarrow> parentId node | Some v \<Rightarrow> v)
      \<and> childrenIds (spread node updates)
          = (case upd_childrenIds updates of None \<Rightarrow> childrenIds node | Some v \<Rightarrow> v))
   \<and> (Map_get (nodes (tree state)) nodeId = None \<longrightarrow>
        tree (updateNode env nodeId updates state) = tree state)"
  by (simp add: tree_updateNode update_conv' spread_def spread_field_def)

theorem updateNode_structural_fields_witness:
  "Map_get (nodes (tree state_A)) ''A'' = Some (example_node ''A'' None)
   \<and> map_option parentId
        (Map_get (nodes (tree (updateNode example_env ''A''
            (no_updates\<lparr> upd_isCollapsed := Some True \<rparr>) state_A))) ''A'') = Some None
   \<and> Map_get (nodes (tree state_A)) ''B'' = None
   \<and> tree (updateNode example_env ''B'' (no_updates\<lparr> upd_isCollapsed := Some True \<rparr>) state_A)
       = tree state_A"
  using updateNode_structural_fields [of state_A "''A''" "example_node ''A'' None" example_env
          "no_updates\<lparr> upd_isCollapsed := Some True \<rparr>"]
        updateNode_structural_fields [of state_A "''B''" "example_node ''A'' None" example_env
          "no_updates\<lparr> upd_isCollapsed := Some True \<rparr>"]
  by (simp add: tree_state_A no_updates_def example_node_def)

text \<open>
  The claim as stated (no call of \<^verbatim>\<open>updateNode\<close> changes \<^verbatim>\<open>parentId\<close>) fails: the root \<open>A\<close>
  has no parent before the call and the parent \<open>zz\<close>, which is not in the tree, after it.
\<close>

theorem updateNode_changes_parentId:
  "map_option parentId (Map_get (nodes (tree state_A)) ''A'') = Some None
   \<and> map_option parentId
        (Map_get (nodes (tree (updateNode example_env ''A''
            (no_updates\<lparr> upd_parentId := Some (Some ''zz'') \<rparr>) state_A))) ''A'')
       = Some (Some ''zz'')"
  by (simp add: tree_updateNode tree_state_A no_updates_def example_node_def spread_def
        spread_field_def)

subsection \<open>deleteNode and the descendants\<close>

text \<open>
  Claim C1 at a concrete tree: the root \<open>A\<close> with its one child \<open>B\<close>, built by two calls of
  \<^verbatim>\<open>addNode\<close>. \<^verbatim>\<open>deleteNode("A")\<close> removes \<open>A\<close> and leaves \<open>B\<close> in the node mapping, with
  \<^verbatim>\<open>parentId\<close> still \<open>A\<close>: the nested call did delete \<open>B\<close>, but the outer call then wrote back
  the mapping it had copied before (lemma \<open>deleteNode_tree\<close> says so for every tree).
\<close>

theorem deleteNode_leaves_children:
  "map_option tree (deleteNode (Suc (Suc 0)) example_env ''A'' state_AB)
     = Some \<lparr> nodes = [(''B'', example_node ''B'' (Some ''A''))], rootIds = [] \<rparr>"
  by (simp add: tree_state_AB Let_def AList.delete_eq example_node_def)

section \<open>Properties of the context builder\<close>

lemma join_two: "join sep [a, b] = a @ sep @ b"
  by simp

lemma chain_last: "xs \<noteq> [] \<Longrightarrow> xs ! (length xs - Suc 0) = last xs"
  by (simp add: last_conv_nth)

lemma enumerate_append_one:
  "List.enumerate k (xs @ [x]) = List.enumerate k xs @ [(k + length xs, x)]"
  by (simp add: enumerate_append_eq)

lemma map_earlier:
  "\<forall>(i, m) \<in> set ps. i \<noteq> j \<Longrightarrow>
   concat (map (\<lambda>(index, chainNode).
       [''Q: '' @ question chainNode, answer_part seg chainNode (index = j) sel]) ps)
   = concat (map (\<lambda>m. [''Q: '' @ question m, ''A: '' @ answer m]) (map snd ps))"
  by (induction ps) (auto simp: answer_part_def)

text \<open>
  Claim C4. With no \<^verbatim>\<open>selectedSectionIndex\<close>, a parent node whose \<^verbatim>\<open>parentId\<close> is not \<^verbatim>\<open>null\<close>
  and a non-empty chain, \<^verbatim>\<open>buildContext\<close> returns the question and the answer of the last
  node of the chain and nothing else; for a parent node whose \<^verbatim>\<open>parentId\<close> is \<^verbatim>\<open>null\<close> and
  the chain \<open>[A]\<close> it returns the question and the full answer of \<open>A\<close>; for the empty chain it
  returns the empty string, whatever the other arguments are.
\<close>

theorem buildContext_continuing_from_child:
  "(chain \<noteq> [] \<and> parentId parentNode \<noteq> None \<longrightarrow>
      buildContext seg (Some parentNode) chain None
        = ''Q: '' @ question (last chain) @ paragraph_break @ ''A: '' @ answer (last chain))
   \<and> (parentId parentNode = None \<longrightarrow>
        buildContext seg (Some parentNode) [A] None
          = ''Q: '' @ question A @ paragraph_break @ ''A: '' @ answer A)
   \<and> buildContext seg parent [] selectedSectionIndex = []"
  by (auto simp: buildContext_def Let_def chain_last answer_part_def enumerate_eq_zip)

theorem buildContext_continuing_from_child_witness:
  "buildContext one_section (Some node_B) [example_node ''A'' None, node_B] None
     = ''Q: q2'' @ paragraph_break @ ''A: a2''
   \<and> buildContext one_section (Some (example_node ''A'' None)) [example_node ''A'' None] None
       = ''Q: q'' @ paragraph_break @ ''A: a''"
  using buildContext_continuing_from_child
          [of "[example_node ''A'' None, node_B]" node_B one_section "example_node ''A'' None"]
        buildContext_continuing_from_child
          [of "[]" "example_node ''A'' None" one_section "example_node ''A'' None"]
  by (simp add: node_B_def)

text \<open>
  Claim C5, amended. With a \<^verbatim>\<open>selectedSectionIndex\<close> the whole chain is rendered. Every node
  before the last contributes its question and its full answer, in the order of the chain.
  For the last node the index is looked up in its cached \<^verbatim>\<open>answerSections\<close>, or in the
  segmentation of its answer when the cache is absent or empty: an index in range puts that
  section's text in the place of the answer, an index out of range puts the full answer.
\<close>

theorem buildContext_selected_section:
  "buildContext seg parent (earlier @ [n]) (Some i) =
     join paragraph_break
       (concat (map (\<lambda>m. [''Q: '' @ question m, ''A: '' @ answer m]) earlier)
        @ [''Q: '' @ question n,
           (if 0 \<le> i \<and> nat i < length (effective_sections seg n)
            then ''A (selected section): '' @ section_text (effective_sections seg n ! nat i)
            else ''A: '' @ answer n)])"
proof -
  have earlier: "\<forall>(k, m) \<in> set (List.enumerate 0 earlier). k \<noteq> length earlier"
    by (auto simp: in_set_enumerate_eq)
  have last_part: "answer_part seg n True (Some i) =
      (if 0 \<le> i \<and> nat i < length (effective_sections seg n)
       then ''A (selected section): '' @ section_text (effective_sections seg n ! nat i)
       else ''A: '' @ answer n)"
    by (simp add: answer_part_def effective_sections_def element_at_def Let_def
             split: option.splits)
  have "buildContext seg parent (earlier @ [n]) (Some i) =
      join paragraph_break
        (concat (map (\<lambda>(index, chainNode).
            [''Q: '' @ question chainNode,
             answer_part seg chainNode (index = length earlier) (Some i)])
           (List.enumerate 0 earlier))
         @ [''Q: '' @ question n, answer_part seg n True (Some i)])"
    by (simp add: buildContext_def Let_def enumerate_append_one split: option.splits)
  then show ?thesis
    using map_earlier [OF earlier, of seg "Some i"] by (simp add: last_part)
qed

text \<open>
  The claim as stated computes the sections only when the cache is absent. A node whose
  cache is the empty list has no index in range, so the claim gives it the full answer;
  the code segments the answer again and renders section 0.
\<close>

theorem buildContext_empty_cache:
  "answerSections node_empty_cache = Some []
   \<and> buildContext one_section (Some node_empty_cache) [node_empty_cache] (Some 0)
       = ''Q: q'' @ paragraph_break @ ''A (selected section): hello''
   \<and> buildContext one_section (Some node_empty_cache) [node_empty_cache] (Some 0)
       \<noteq> ''Q: q'' @ paragraph_break @ ''A: hello''"
  by (simp add: buildContext_def answer_part_def element_at_def enumerate_eq_zip Let_def
        node_empty_cache_def one_section_def)

section \<open>Properties of the session functions\<close>

lemma state_S_eq:
  "state_S =
     \<lparr> tree = initialTree,
       currentSessionId = Some ''session-1700000000000-k3j9x0q2a'',
       sessions =
         [(''session-1700000000000-k3j9x0q2a'',
           \<lparr> session_id = ''session-1700000000000-k3j9x0q2a'',
             session_name = ''New Session 11/14/2023, 10:13:20 PM'',
             createdAt = 1700000000000, updatedAt = 1700000000000,
             session_tree = \<lparr> stored_nodes = NodesMap [], stored_rootIds = [] \<rparr> \<rparr>)] \<rparr>"
  by (simp add: state_S_def createNewSession_def initialState_def Let_def
        newSessionId_example_env example_env_fields)

lemma state_A_eq:
  "state_A =
     \<lparr> tree = \<lparr> nodes = [(''A'', example_node ''A'' None)], rootIds = [''A''] \<rparr>,
       currentSessionId = Some ''session-1700000000000-k3j9x0q2a'',
       sessions =
         [(''session-1700000000000-k3j9x0q2a'',
           \<lparr> session_id = ''session-1700000000000-k3j9x0q2a'',
             session_name = ''Session 11/14/2023, 10:13:20 PM'',
             createdAt = 1700000000000, updatedAt = 1700000000000,
             session_tree =
               \<lparr> stored_nodes = NodesArray [(''A'', example_node ''A'' None)],
                 stored_rootIds = [''A''] \<rparr> \<rparr>)] \<rparr>"
  by (simp add: state_A_def addNode_def saveToStorage_def saveCurrentSession_def Let_def
        initialState_def initialTree_def newSessionId_example_env example_env_fields)

subsection \<open>Errors of importSession and exportSession, and the id of an imported session\<close>

text \<open>
  Claim C8, amended. For a text that cannot be parsed, and for parsed data without a
  \<^verbatim>\<open>session\<close> or without a \<^verbatim>\<open>session.tree\<close> (the document \<^verbatim>\<open>null\<close> included, for which the
  error is a \<^verbatim>\<open>TypeError\<close>), \<^verbatim>\<open>importSession\<close> throws and the store is as it was before the
  call. For every input with a \<^verbatim>\<open>session.tree\<close> it returns the id \<^verbatim>\<open>session-\<close>, \<^verbatim>\<open>Date.now()\<close>,
  \<^verbatim>\<open>-\<close>, \<^verbatim>\<open>Math.random().toString(36).slice(2, 11)\<close> (at most nine characters) and sets, under
  that id, the session built from the document: the document's name and creation time
  (or \<^verbatim>\<open>Imported Session\<close> with the date, and the clock), the clock as update time, the node
  mapping made from the document's entries with the missing names filled in, and the
  document's root ids. Nothing else of the store changes. The code does not compare the
  id with the ids in use: when no session is stored under it, the session is added at the
  end of the mapping; when one is, that one is replaced. For an unknown session id
  \<^verbatim>\<open>exportSession\<close> throws \<^verbatim>\<open>Session not found\<close>.
\<close>

theorem import_export_errors:
  "importSession env Unparseable state = (Inl SyntaxError, state)
   \<and> importSession env JsonNull state = (Inl TypeError, state)
   \<and> (data_session d = None \<longrightarrow>
        importSession env (Json d) state = (Inl (Error ''Invalid session file format''), state))
   \<and> (data_session d = Some s \<and> data_tree s = None \<longrightarrow>
        importSession env (Json d) state = (Inl (Error ''Invalid session file format''), state))
   \<and> (data_session d = Some s \<and> data_tree s = Some t \<longrightarrow>
        (let imported =
               \<lparr> session_id = newSessionId env,
                 session_name =
                   (case data_name s of
                      None \<Rightarrow> ''Imported Session '' @ locale_time env
                    | Some n \<Rightarrow> if truthy n then n else ''Imported Session '' @ locale_time env),
                 createdAt =
                   (case data_createdAt s of
                      None \<Rightarrow> now env
                    | Some c \<Rightarrow> if c \<noteq> 0 then c else now env),
                 updatedAt = now env,
                 session_tree =
                   \<lparr> stored_nodes =
                       NodesMap (map (\<lambda>(k, v). (k, fill_name state v))
                                  (new_Map (case data_nodes t of None \<Rightarrow> [] | Some a \<Rightarrow> a))),
                     stored_rootIds = (case data_rootIds t of None \<Rightarrow> [] | Some r \<Rightarrow> r) \<rparr> \<rparr>;
             after = snd (importSession env (Json d) state)
         in fst (importSession env (Json d) state) = Inr (newSessionId env)
            \<and> after = state\<lparr> sessions := Map_set (sessions state) (newSessionId env) imported \<rparr>
            \<and> Map_get (sessions after) (newSessionId env) = Some imported
            \<and> (\<forall>k. k \<noteq> newSessionId env \<longrightarrow>
                  Map_get (sessions after) k = Map_get (sessions state) k)
            \<and> map fst (sessions after)
                = (if Map_get (sessions state) (newSessionId env) = None
                   then map fst (sessions state) @ [newSessionId env]
                   else map fst (sessions state))
            \<and> tree after = tree state
            \<and> currentSessionId after = currentSessionId state))
   \<and> (Map_get (sessions state) sessionId = None \<longrightarrow>
        exportSession env sessionId state = Inl (Error ''Session not found''))"
proof -
  have keys: "\<And>v. map fst (Map_set (sessions state) (newSessionId env) v)
                = (if Map_get (sessions state) (newSessionId env) = None
                   then map fst (sessions state) @ [newSessionId env]
                   else map fst (sessions state))"
    by (simp add: update_keys map_of_eq_None_iff)
  show ?thesis
    by (simp add: importSession_def exportSession_def Let_def update_conv' keys)
qed

theorem import_export_errors_witness:
  "importSession example_env2 Unparseable state_S = (Inl SyntaxError, state_S)
   \<and> importSession example_env2 JsonNull state_S = (Inl TypeError, state_S)
   \<and> importSession example_env2 (Json (example_data\<lparr> data_session := None \<rparr>)) state_S
       = (Inl (Error ''Invalid session file format''), state_S)
   \<and> importSession example_env2
         (Json (example_data\<lparr> data_session := Some (example_session_data\<lparr> data_tree := None \<rparr>) \<rparr>))
         state_S
       = (Inl (Error ''Invalid session file format''), state_S)
   \<and> fst (importSession example_env2 (Json example_data) state_S)
       = Inr ''session-1700000005000-p0c7m2zq1''
   \<and> Map_get (sessions (snd (importSession example_env2 (Json example_data) state_S)))
         ''session-1700000005000-p0c7m2zq1''
       = Some \<lparr> session_id = ''session-1700000005000-p0c7m2zq1'', session_name = ''Notes'',
                createdAt = 1, updatedAt = 1700000005000,
                session_tree =
                  \<lparr> stored_nodes = NodesMap [(KeyStr ''A'', NodeVal (example_node ''A'' None))],
                    stored_rootIds = [''A''] \<rparr> \<rparr>
   \<and> map fst (sessions (snd (importSession example_env2 (Json example_data) state_S)))
       = [''session-1700000000000-k3j9x0q2a'', ''session-1700000005000-p0c7m2zq1'']
   \<and> Map_get (sessions state_S) ''session-1700000005000-p0c7m2zq1'' = None
   \<and> exportSession example_env2 ''session-1700000005000-p0c7m2zq1'' state_S
       = Inl (Error ''Session not found'')"
  using import_export_errors [of example_env2 state_S "example_data\<lparr> data_session := None \<rparr>"
          example_session_data example_tree_data "''session-1700000005000-p0c7m2zq1''"]
        import_export_errors [of example_env2 state_S
          "example_data\<lparr> data_session := Some (example_session_data\<lparr> data_tree := None \<rparr>) \<rparr>"
          "example_session_data\<lparr> data_tree := None \<rparr>" example_tree_data
          "''session-1700000005000-p0c7m2zq1''"]
        import_export_errors [of example_env2 state_S example_data
          example_session_data example_tree_data "''session-1700000005000-p0c7m2zq1''"]
  by (simp add: newSessionId_example_env2 state_S_eq example_data_def example_session_data_def
        example_tree_data_def example_env_fields Let_def new_Map_def truthy_def)

text \<open>
  The claim as stated (the returned id collides with no existing session) fails when the
  clock and the random number give the id of a session that is already stored: the import
  returns that id and the stored session is replaced.
\<close>

theorem importSession_id_collision:
  "map_option session_name (Map_get (sessions state_S) (newSessionId example_env))
     = Some ''New Session 11/14/2023, 10:13:20 PM''
   \<and> fst (importSession example_env (Json example_data) state_S) = Inr (newSessionId example_env)
   \<and> map_option session_name
        (Map_get (sessions (snd (importSession example_env (Json example_data) state_S)))
           (newSessionId example_env)) = Some ''Notes''
   \<and> length (sessions (snd (importSession example_env (Json example_data) state_S))) = 1"
  by (simp add: importSession_def Let_def newSessionId_example_env state_S_eq example_data_def
        example_session_data_def example_tree_data_def truthy_def example_env_fields)

subsection \<open>deleteSession of the active session\<close>

text \<open>
  Claim C9 at a concrete state: one stored session, which is the active one.
  \<^verbatim>\<open>deleteSession\<close> of its id calls \<^verbatim>\<open>createNewSession\<close>, which registers a replacement and
  makes it active; \<^verbatim>\<open>deleteSession\<close> then builds the new session mapping from the state it
  read before that call, so the replacement is dropped again: the active session id
  refers to no stored session.
\<close>

theorem deleteSession_active_leaves_dangling_id:
  "currentSessionId state_S = Some ''session-1700000000000-k3j9x0q2a''
   \<and> currentSessionId (deleteSession example_env2 ''session-1700000000000-k3j9x0q2a'' state_S)
       = Some ''session-1700000005000-p0c7m2zq1''
   \<and> sessions (deleteSession example_env2 ''session-1700000000000-k3j9x0q2a'' state_S) = []"
  by (simp add: deleteSession_def createNewSession_def Let_def newSessionId_example_env2
        state_S_eq AList.delete_eq truthy_def initialTree_def example_env_fields)

subsection \<open>exportSession followed by importSession\<close>

text \<open>
  Claim C7 at a concrete state: the session that \<^verbatim>\<open>addNode\<close> saved for the tree with the
  single root \<open>A\<close>. Its nodes are stored as the array \<open>[[A, node]]\<close>, whose entries are
  \<open>[0, [A, node]]\<close>, so the session registered by \<^verbatim>\<open>importSession\<close> of the exported text maps
  the number \<open>0\<close> to the pair \<open>[A, node]\<close>, not the id \<open>A\<close> to the node.
\<close>

theorem export_import_after_save:
  "map_option (\<lambda>s. stored_nodes (session_tree s))
      (Map_get (sessions state_A) ''session-1700000000000-k3j9x0q2a'')
     = Some (NodesArray [(''A'', example_node ''A'' None)])
   \<and> (case exportSession example_env2 ''session-1700000000000-k3j9x0q2a'' state_A of
         Inl e \<Rightarrow> None
       | Inr exported \<Rightarrow>
           map_option (\<lambda>s. stored_nodes (session_tree s))
             (Map_get (sessions (snd (importSession example_env2 exported state_A)))
                ''session-1700000005000-p0c7m2zq1''))
     = Some (NodesMap [(KeyNum 0, PairVal ''A'' (example_node ''A'' None) (Some ''Node 2''))])"
  by (simp add: exportSession_def importSession_def Let_def newSessionId_example_env2
        state_A_eq new_Map_def enumerate_eq_zip show_nat.simps example_env_fields)

section \<open>The structural invariants\<close>

subsection \<open>Parents before children\<close>

lemma parents_first_mono:
  "parents_first seen xs \<Longrightarrow> set seen \<subseteq> set seen' \<Longrightarrow> parents_first seen' xs"
proof (induction xs arbitrary: seen seen')
  case Nil
  then show ?case by simp
next
  case (Cons x xs)
  obtain k n where x: "x = (k, n)" by (cases x)
  from Cons.prems have rest: "parents_first (k # seen) xs" by (simp add: x)
  have "set (k # seen) \<subseteq> set (k # seen')" using Cons.prems(2) by auto
  from Cons.IH [OF rest this] Cons.prems show ?case
    by (auto simp: x split: option.splits)
qed

lemma parents_first_append:
  "parents_first seen (xs @ ys)
     \<longleftrightarrow> parents_first seen xs \<and> parents_first (rev (map fst xs) @ seen) ys"
proof (induction xs arbitrary: seen)
  case Nil
  then show ?case by simp
next
  case (Cons x xs)
  obtain k n where x: "x = (k, n)" by (cases x)
  show ?case by (simp add: x Cons.IH conj_assoc)
qed

lemma parents_first_update:
  "parents_first seen xs \<Longrightarrow> \<forall>n. (k, n) \<in> set xs \<longrightarrow> parentId n = parentId v
   \<Longrightarrow> k \<in> fst ` set xs \<Longrightarrow> parents_first seen (AList.update k v xs)"
proof (induction xs arbitrary: seen)
  case Nil
  then show ?case by simp
next
  case (Cons x xs)
  obtain k' n' where x: "x = (k', n')" by (cases x)
  show ?case
  proof (cases "k' = k")
    case True
    with Cons.prems show ?thesis by (auto simp: x split: option.splits)
  next
    case False
    with Cons.prems have "parents_first (k' # seen) (AList.update k v xs)"
      by (intro Cons.IH) (auto simp: x)
    with Cons.prems False show ?thesis by (auto simp: x split: option.splits)
  qed
qed

lemma parents_first_delete:
  "parents_first seen xs \<Longrightarrow> \<forall>(k', n') \<in> set xs. parentId n' \<noteq> Some k
   \<Longrightarrow> parents_first (removeAll k seen) (AList.delete k xs)"
proof (induction xs arbitrary: seen)
  case Nil
  then show ?case by (simp add: AList.delete_eq)
next
  case (Cons x xs)
  obtain k' n' where x: "x = (k', n')" by (cases x)
  from Cons.prems have "parents_first (removeAll k (k' # seen)) (AList.delete k xs)"
    by (intro Cons.IH) (auto simp: x)
  with Cons.prems show ?case
    by (auto simp: x split: option.splits)
qed

lemma parents_first_parent:
  "parents_first seen xs \<Longrightarrow> (k, n) \<in> set xs \<Longrightarrow> parentId n = Some p
   \<Longrightarrow> truthy p \<and> (p \<in> set seen \<or> p \<in> fst ` set xs)"
proof (induction xs arbitrary: seen)
  case Nil
  then show ?case by simp
next
  case (Cons x xs)
  obtain k' n' where x: "x = (k', n')" by (cases x)
  show ?case
  proof (cases "(k, n) = (k', n')")
    case True
    with Cons.prems show ?thesis by (auto simp: x)
  next
    case False
    with Cons.prems have "(k, n) \<in> set xs" and "parents_first (k' # seen) xs"
      by (auto simp: x)
    from Cons.IH [OF this(2) this(1) Cons.prems(3)] show ?thesis
      by (auto simp: x)
  qed
qed

lemma reaches_root_mono:
  "reaches_root a m k \<Longrightarrow> a \<le> b \<Longrightarrow> reaches_root b m k"
proof (induction a arbitrary: b k)
  case 0
  then show ?case by simp
next
  case (Suc a)
  then obtain b' where b: "b = Suc b'" and le: "a \<le> b'" by (cases b) auto
  from Suc.prems(1) Suc.IH [OF _ le] show ?case
    by (auto simp: b split: option.splits)
qed

lemma parents_first_reaches_root:
  "distinct (map fst (pre @ suf)) \<Longrightarrow> parents_first (rev (map fst pre)) suf
   \<Longrightarrow> \<forall>k \<in> fst ` set pre. reaches_root (length pre) (pre @ suf) k
   \<Longrightarrow> \<forall>k \<in> fst ` set (pre @ suf). reaches_root (length (pre @ suf)) (pre @ suf) k"
proof (induction suf arbitrary: pre)
  case Nil
  then show ?case by simp
next
  case (Cons x suf)
  obtain k n where x: "x = (k, n)" by (cases x)
  let ?m = "pre @ (k, n) # suf"
  have lookup: "Map_get ?m k = Some n"
    using Cons.prems(1) by (intro map_of_is_SomeI) (simp_all add: x)
  have here: "reaches_root (Suc (length pre)) ?m k"
  proof (cases "parentId n")
    case None
    with lookup show ?thesis by simp
  next
    case (Some p)
    with Cons.prems(2) have "p \<in> fst ` set pre" by (auto simp: x)
    with Cons.prems(3) have "reaches_root (length pre) ?m p" by (auto simp: x)
    with lookup Some show ?thesis by simp
  qed
  have before: "\<forall>k' \<in> fst ` set (pre @ [(k, n)]). reaches_root (length (pre @ [(k, n)])) ((pre @ [(k, n)]) @ suf) k'"
  proof
    fix k' assume "k' \<in> fst ` set (pre @ [(k, n)])"
    then consider "k' = k" | "k' \<in> fst ` set pre" by auto
    then show "reaches_root (length (pre @ [(k, n)])) ((pre @ [(k, n)]) @ suf) k'"
    proof cases
      case 1
      with here show ?thesis by simp
    next
      case 2
      with Cons.prems(3) have "reaches_root (length pre) ?m k'" by (auto simp: x)
      then have "reaches_root (Suc (length pre)) ?m k'" by (rule reaches_root_mono) simp
      then show ?thesis by simp
    qed
  qed
  have "\<forall>k' \<in> fst ` set ((pre @ [(k, n)]) @ suf).
          reaches_root (length ((pre @ [(k, n)]) @ suf)) ((pre @ [(k, n)]) @ suf) k'"
  proof (rule Cons.IH [OF _ _ before])
    show "distinct (map fst ((pre @ [(k, n)]) @ suf))" using Cons.prems(1) by (simp add: x)
    show "parents_first (rev (map fst (pre @ [(k, n)]))) suf" using Cons.prems(2) by (simp add: x)
  qed
  then show ?case by (simp add: x)
qed

lemma wf_reaches_root:
  "distinct (map fst m) \<Longrightarrow> parents_first [] m \<Longrightarrow> k \<in> fst ` set m
   \<Longrightarrow> reaches_root (length m) m k"
  using parents_first_reaches_root [of "[]" m] by auto

subsection \<open>The links between parents and children\<close>

lemma links_add_root:
  assumes "links M" and "M i = None" and "node_id node = i" and "childrenIds node = []"
    and "parentId node = None"
  shows "links (M(i \<mapsto> node))"
  unfolding links_def
proof (intro allI impI)
  fix k n assume kn: "(M(i \<mapsto> node)) k = Some n"
  have old: "\<And>k n. M k = Some n \<Longrightarrow> node_id n = k \<and> distinct (childrenIds n)
        \<and> (\<forall>c. c \<in> set (childrenIds n) \<longleftrightarrow> (\<exists>child. M c = Some child \<and> parentId child = Some k))
        \<and> (\<forall>p. parentId n = Some p \<longrightarrow> M p \<noteq> None)"
    using assms(1) unfolding links_def by blast
  have no_ref: "\<And>c child. M c = Some child \<Longrightarrow> parentId child \<noteq> Some i"
    using old assms(2) by blast
  show "node_id n = k \<and> distinct (childrenIds n)
        \<and> (\<forall>c. c \<in> set (childrenIds n)
              \<longleftrightarrow> (\<exists>child. (M(i \<mapsto> node)) c = Some child \<and> parentId child = Some k))
        \<and> (\<forall>p. parentId n = Some p \<longrightarrow> (M(i \<mapsto> node)) p \<noteq> None)"
  proof (cases "k = i")
    case True
    with kn have n: "n = node" by simp
    show ?thesis using assms(3-5) no_ref by (auto simp: n True)
  next
    case False
    with kn have "M k = Some n" by simp
    from old [OF this] show ?thesis using assms(2,5) False
      by (auto split: if_splits)
  qed
qed

lemma linksD:
  assumes "links M" and "M k = Some n"
  shows "node_id n = k" and "distinct (childrenIds n)"
    and "\<And>c. c \<in> set (childrenIds n) \<longleftrightarrow> (\<exists>child. M c = Some child \<and> parentId child = Some k)"
    and "\<And>p. parentId n = Some p \<Longrightarrow> M p \<noteq> None"
  using assms unfolding links_def by blast+

lemma links_add_child:
  assumes "links M" and "M i = None" and "node_id node = i" and "childrenIds node = []"
    and "parentId node = Some p" and "M p = Some parent"
  shows "links (M(i \<mapsto> node, p \<mapsto> parent\<lparr> childrenIds := childrenIds parent @ [i] \<rparr>))"
    (is "links ?M'")
  unfolding links_def
proof (intro allI impI)
  fix k n assume kn: "?M' k = Some n"
  have pi: "p \<noteq> i" using assms(2,6) by auto
  have no_ref: "\<And>c child. M c = Some child \<Longrightarrow> parentId child \<noteq> Some i"
    using linksD(4) [OF assms(1)] assms(2) by blast
  have not_child: "\<And>q m. M q = Some m \<Longrightarrow> i \<notin> set (childrenIds m)"
    using linksD(3) [OF assms(1)] assms(2) by auto
  have M': "\<And>c. ?M' c = (if c = p then Some (parent\<lparr> childrenIds := childrenIds parent @ [i] \<rparr>)
                             else if c = i then Some node else M c)"
    by simp
  have par: "\<And>c child. ?M' c = Some child \<Longrightarrow>
       (c = i \<and> child = node) \<or> (c \<noteq> i \<and> (\<exists>child0. M c = Some child0 \<and> parentId child0 = parentId child))"
    using assms(2,6) pi by (auto simp: M' split: if_splits)
  have par': "\<And>c child0. M c = Some child0 \<Longrightarrow> \<exists>child. ?M' c = Some child \<and> parentId child = parentId child0"
    using assms(2,6) by (auto simp: M')
  consider "k = p" | "k = i" | "k \<noteq> p" "k \<noteq> i" by blast
  then show "node_id n = k \<and> distinct (childrenIds n)
        \<and> (\<forall>c. c \<in> set (childrenIds n)
              \<longleftrightarrow> (\<exists>child. ?M' c = Some child \<and> parentId child = Some k))
        \<and> (\<forall>p. parentId n = Some p \<longrightarrow> ?M' p \<noteq> None)"
  proof cases
    case 1
    with kn have n: "n = parent\<lparr> childrenIds := childrenIds parent @ [i] \<rparr>" by simp
    have a: "node_id n = k" using linksD(1) [OF assms(1,6)] by (simp add: n 1)
    have b: "distinct (childrenIds n)"
      using linksD(2) [OF assms(1,6)] not_child [OF assms(6)] by (simp add: n)
    have c: "\<forall>c. c \<in> set (childrenIds n)
              \<longleftrightarrow> (\<exists>child. ?M' c = Some child \<and> parentId child = Some k)"
    proof
      fix c
      show "c \<in> set (childrenIds n) \<longleftrightarrow> (\<exists>child. ?M' c = Some child \<and> parentId child = Some k)"
      proof (cases "c = i")
        case True
        then show ?thesis using assms(5) pi by (simp add: n 1)
      next
        case False
        have "c \<in> set (childrenIds n) \<longleftrightarrow> c \<in> set (childrenIds parent)"
          using False by (simp add: n)
        also have "\<dots> \<longleftrightarrow> (\<exists>child. M c = Some child \<and> parentId child = Some p)"
          using linksD(3) [OF assms(1,6)] by simp
        also have "\<dots> \<longleftrightarrow> (\<exists>child. ?M' c = Some child \<and> parentId child = Some p)"
          using False par [of c] par' [of c] by (metis)
        finally show ?thesis by (simp add: 1)
      qed
    qed
    have d: "\<forall>q. parentId n = Some q \<longrightarrow> ?M' q \<noteq> None"
      using linksD(4) [OF assms(1,6)] by (auto simp: n)
    from a b c d show ?thesis by blast
  next
    case 2
    with kn pi have n: "n = node" by simp
    have c: "\<forall>c. c \<in> set (childrenIds n)
              \<longleftrightarrow> (\<exists>child. ?M' c = Some child \<and> parentId child = Some k)"
      using par no_ref assms(4,5) pi by (metis 2 n empty_iff list.set(1) option.inject)
    show ?thesis using assms(3-6) c by (auto simp: n 2)
  next
    case 3
    with kn have old: "M k = Some n" by simp
    have c: "\<forall>c. c \<in> set (childrenIds n)
              \<longleftrightarrow> (\<exists>child. ?M' c = Some child \<and> parentId child = Some k)"
    proof
      fix c
      show "c \<in> set (childrenIds n) \<longleftrightarrow> (\<exists>child. ?M' c = Some child \<and> parentId child = Some k)"
      proof (cases "c = i")
        case True
        then show ?thesis using not_child [OF old] assms(5) 3 pi by simp
      next
        case False
        have "c \<in> set (childrenIds n) \<longleftrightarrow> (\<exists>child. M c = Some child \<and> parentId child = Some k)"
          using linksD(3) [OF assms(1) old] by simp
        also have "\<dots> \<longleftrightarrow> (\<exists>child. ?M' c = Some child \<and> parentId child = Some k)"
          using False par [of c] par' [of c] by (metis)
        finally show ?thesis .
      qed
    qed
    have d: "\<forall>q. parentId n = Some q \<longrightarrow> ?M' q \<noteq> None"
      using linksD(4) [OF assms(1) old] by (auto)
    show ?thesis using linksD(1,2) [OF assms(1) old] c d by blast
  qed
qed

lemma links_update:
  assumes "links M" and "M k = Some node" and "node_id v = node_id node"
    and "parentId v = parentId node" and "childrenIds v = childrenIds node"
  shows "links (M(k \<mapsto> v))"
  unfolding links_def
proof (intro allI impI)
  fix q n assume qn: "(M(k \<mapsto> v)) q = Some n"
  have par: "\<And>c. (\<exists>child. (M(k \<mapsto> v)) c = Some child \<and> parentId child = Some q)
                \<longleftrightarrow> (\<exists>child. M c = Some child \<and> parentId child = Some q)"
    using assms(2,4) by auto
  have dom: "\<And>c. (M(k \<mapsto> v)) c \<noteq> None \<longleftrightarrow> M c \<noteq> None"
    using assms(2) by auto
  obtain n0 where n0: "M q = Some n0" "node_id n = node_id n0" "parentId n = parentId n0"
      "childrenIds n = childrenIds n0"
    using qn assms(2-5) by (cases "q = k") auto
  show "node_id n = q \<and> distinct (childrenIds n)
        \<and> (\<forall>c. c \<in> set (childrenIds n)
              \<longleftrightarrow> (\<exists>child. (M(k \<mapsto> v)) c = Some child \<and> parentId child = Some q))
        \<and> (\<forall>p. parentId n = Some p \<longrightarrow> (M(k \<mapsto> v)) p \<noteq> None)"
    using linksD [OF assms(1) n0(1)] by (simp only: par dom n0) blast
qed

lemma links_delete_leaf:
  assumes "links M" and "M k = Some node" and "childrenIds node = []"
  shows "parentId node = None \<Longrightarrow> links (M(k := None))"
    and "parentId node = Some p \<Longrightarrow> M p = Some parent \<Longrightarrow>
         links ((M(k := None))(p \<mapsto> parent\<lparr> childrenIds :=
                  filter (\<lambda>childId. childId \<noteq> k) (childrenIds parent) \<rparr>))"
proof -
  have no_child: "\<And>c child. M c = Some child \<Longrightarrow> parentId child \<noteq> Some k"
    using linksD(3) [OF assms(1,2)] assms(3) by auto
  have only_parent: "\<And>q m. M q = Some m \<Longrightarrow> k \<in> set (childrenIds m) \<Longrightarrow> parentId node = Some q"
    using linksD(3) [OF assms(1)] assms(2) by auto
  {
    assume root: "parentId node = None"
    show "links (M(k := None))"
      unfolding links_def
    proof (intro allI impI)
      fix q n assume qn: "(M(k := None)) q = Some n"
      then have q: "q \<noteq> k" and old: "M q = Some n" by (auto split: if_splits)
      have notin: "k \<notin> set (childrenIds n)" using only_parent [OF old] root by auto
      have c: "\<forall>c. c \<in> set (childrenIds n)
              \<longleftrightarrow> (\<exists>child. (M(k := None)) c = Some child \<and> parentId child = Some q)"
        using linksD(3) [OF assms(1) old] notin by auto
      have d: "\<forall>p. parentId n = Some p \<longrightarrow> (M(k := None)) p \<noteq> None"
        using linksD(4) [OF assms(1) old] no_child [OF old] by auto
      show "node_id n = q \<and> distinct (childrenIds n)
        \<and> (\<forall>c. c \<in> set (childrenIds n)
              \<longleftrightarrow> (\<exists>child. (M(k := None)) c = Some child \<and> parentId child = Some q))
        \<and> (\<forall>p. parentId n = Some p \<longrightarrow> (M(k := None)) p \<noteq> None)"
        using linksD(1,2) [OF assms(1) old] c d by blast
    qed
  }
  {
    assume child: "parentId node = Some p" and parent: "M p = Some parent"
    let ?parent' = "parent\<lparr> childrenIds := filter (\<lambda>childId. childId \<noteq> k) (childrenIds parent) \<rparr>"
    let ?M' = "(M(k := None))(p \<mapsto> ?parent')"
    have pk: "p \<noteq> k" using no_child [OF assms(2)] child by auto
    have par: "\<And>c q. c \<noteq> k \<Longrightarrow> (\<exists>ch. ?M' c = Some ch \<and> parentId ch = Some q)
                \<longleftrightarrow> (\<exists>ch. M c = Some ch \<and> parentId ch = Some q)"
      using parent by auto
    have dom: "\<And>c. c \<noteq> k \<Longrightarrow> ?M' c \<noteq> None \<longleftrightarrow> M c \<noteq> None"
      using parent by auto
    show "links ?M'"
      unfolding links_def
    proof (intro allI impI)
      fix q n assume qn: "?M' q = Some n"
      then have q: "q \<noteq> k" using pk by (auto split: if_splits)
      show "node_id n = q \<and> distinct (childrenIds n)
        \<and> (\<forall>c. c \<in> set (childrenIds n)
              \<longleftrightarrow> (\<exists>ch. ?M' c = Some ch \<and> parentId ch = Some q))
        \<and> (\<forall>p'. parentId n = Some p' \<longrightarrow> ?M' p' \<noteq> None)"
      proof (cases "q = p")
        case True
        with qn have n: "n = ?parent'" by simp
        have c: "\<forall>c. c \<in> set (childrenIds n)
              \<longleftrightarrow> (\<exists>ch. ?M' c = Some ch \<and> parentId ch = Some q)"
        proof
          fix c
          show "c \<in> set (childrenIds n) \<longleftrightarrow> (\<exists>ch. ?M' c = Some ch \<and> parentId ch = Some q)"
          proof (cases "c = k")
            case True
            then show ?thesis using pk by (simp add: n)
          next
            case False
            then show ?thesis
              using linksD(3) [OF assms(1) parent, of c] par [OF False, of p]
              by (simp add: n True)
          qed
        qed
        have d: "\<forall>p'. parentId n = Some p' \<longrightarrow> ?M' p' \<noteq> None"
          using linksD(4) [OF assms(1) parent] no_child [OF parent] dom
          by (metis n ConversationNode.select_convs(6) ConversationNode.surjective
                ConversationNode.update_convs(7))
        show ?thesis
          using linksD(1,2) [OF assms(1) parent] c d by (simp add: n True)
      next
        case False
        with qn q have old: "M q = Some n" by (auto split: if_splits)
        have notin: "k \<notin> set (childrenIds n)"
          using only_parent [OF old] child False by auto
        have c: "\<forall>c. c \<in> set (childrenIds n)
              \<longleftrightarrow> (\<exists>ch. ?M' c = Some ch \<and> parentId ch = Some q)"
        proof
          fix c
          show "c \<in> set (childrenIds n) \<longleftrightarrow> (\<exists>ch. ?M' c = Some ch \<and> parentId ch = Some q)"
          proof (cases "c = k")
            case True
            then show ?thesis using notin pk by simp
          next
            case False
            then show ?thesis
              using linksD(3) [OF assms(1) old, of c] par [OF False, of q] by simp
          qed
        qed
        have d: "\<forall>p'. parentId n = Some p' \<longrightarrow> ?M' p' \<noteq> None"
          using linksD(4) [OF assms(1) old] no_child [OF old] dom by metis
        show ?thesis using linksD(1,2) [OF assms(1) old] c d by blast
      qed
    qed
  }
qed

subsection \<open>Admissible calls keep a tree well-formed\<close>

lemma update_fresh: "k \<notin> fst ` set al \<Longrightarrow> AList.update k v al = al @ [(k, v)]"
  by (induction al) auto

lemma wf_initialTree: "wf_tree initialTree"
  by (simp add: wf_tree_def initialTree_def links_def)

lemma wf_parent_truthy:
  assumes "wf_tree t" and "Map_get (nodes t) k = Some n" and "parentId n = Some p"
  shows "truthy p"
  using parents_first_parent [of "[]" "nodes t" k n p] assms
  by (auto simp: wf_tree_def dest: map_of_SomeD)

lemma wf_addNode:
  assumes wf: "wf_tree (tree state)" and adm: "admissible (tree state) (AddNode node)"
  shows "wf_tree (tree (addNode env node state))"
proof -
  let ?ns = "nodes (tree state)"
  let ?i = "node_id node"
  let ?new = "AList.update ?i node ?ns"
  from wf have dist: "distinct (map fst ?ns)" and pf: "parents_first [] ?ns"
    and links: "links (Map_get ?ns)"
    and roots: "set (rootIds (tree state))
                  = {k. \<exists>n. Map_get ?ns k = Some n \<and> parentId n = None}"
    by (simp_all add: wf_tree_def)
  from adm have fresh: "Map_get ?ns ?i = None" and leaf: "childrenIds node = []" by simp_all
  from fresh have notin: "?i \<notin> fst ` set ?ns" by (simp add: map_of_eq_None_iff)
  have new: "?new = ?ns @ [(?i, node)]" using notin by (rule update_fresh)
  have dist_new: "distinct (map fst ?new)" using dist by (rule distinct_update)
  have map_new: "Map_get ?new = (Map_get ?ns)(?i \<mapsto> node)" by (rule update_conv')
  show ?thesis
  proof (cases "parentId node")
    case None
    have t': "tree (addNode env node state)
                = \<lparr> nodes = ?new, rootIds = rootIds (tree state) @ [?i] \<rparr>"
      by (simp add: tree_addNode None)
    have "parents_first [] (?ns @ [(?i, node)])"
      using pf None by (simp add: parents_first_append)
    then have 1: "parents_first [] ?new" by (simp only: new)
    have 2: "links (Map_get ?new)"
      unfolding map_new by (rule links_add_root [OF links fresh refl leaf None])
    have "\<And>k. (\<exists>n. ((Map_get ?ns)(?i \<mapsto> node)) k = Some n \<and> parentId n = None)
             \<longleftrightarrow> k = ?i \<or> (\<exists>n. Map_get ?ns k = Some n \<and> parentId n = None)"
      using None fresh by auto
    then have 3: "set (rootIds (tree state) @ [?i])
                     = {k. \<exists>n. Map_get ?new k = Some n \<and> parentId n = None}"
      unfolding map_new using roots by auto
    show ?thesis unfolding wf_tree_def t' using dist_new 1 2 3 by simp
  next
    case (Some p)
    with adm obtain parent where p: "truthy p" and parent: "Map_get ?ns p = Some parent"
      by auto
    have pi: "p \<noteq> ?i" using parent fresh by auto
    let ?parent' = "parent\<lparr> childrenIds := childrenIds parent @ [?i] \<rparr>"
    have lookup: "Map_get ?new p = Some parent" using parent pi by (simp add: map_new)
    have t': "tree (addNode env node state)
                = \<lparr> nodes = AList.update p ?parent' ?new, rootIds = rootIds (tree state) \<rparr>"
      by (simp add: tree_addNode Some p lookup)
    have p_in: "p \<in> fst ` set ?ns" using parent by (metis map_of_eq_None_iff option.distinct(1))
    have "parents_first [] (?ns @ [(?i, node)])"
      using pf Some p p_in by (simp add: parents_first_append)
    then have pf_new: "parents_first [] ?new" by (simp only: new)
    have same_parent: "\<forall>n. (p, n) \<in> set ?new \<longrightarrow> parentId n = parentId ?parent'"
    proof (intro allI impI)
      fix n assume "(p, n) \<in> set ?new"
      with dist_new have "Map_get ?new p = Some n" by (rule map_of_is_SomeI)
      with lookup show "parentId n = parentId ?parent'" by simp
    qed
    have p_in_new: "p \<in> fst ` set ?new"
      using lookup by (metis map_of_eq_None_iff option.distinct(1))
    have 1: "parents_first [] (AList.update p ?parent' ?new)"
      using pf_new same_parent p_in_new by (rule parents_first_update)
    have 0: "distinct (map fst (AList.update p ?parent' ?new))"
      using dist_new by (rule distinct_update)
    have map_new': "Map_get (AList.update p ?parent' ?new)
                     = (Map_get ?ns)(?i \<mapsto> node, p \<mapsto> ?parent')"
      by (simp only: update_conv')
    have 2: "links (Map_get (AList.update p ?parent' ?new))"
      unfolding map_new' by (rule links_add_child [OF links fresh refl leaf Some parent])
    have "\<And>k. (\<exists>n. ((Map_get ?ns)(?i \<mapsto> node, p \<mapsto> ?parent')) k = Some n \<and> parentId n = None)
               \<longleftrightarrow> (\<exists>n. Map_get ?ns k = Some n \<and> parentId n = None)"
      using Some fresh parent pi by (auto split: if_splits)
    then have 3: "set (rootIds (tree state))
                     = {k. \<exists>n. Map_get (AList.update p ?parent' ?new) k = Some n \<and> parentId n = None}"
      unfolding map_new' roots by simp
    show ?thesis unfolding wf_tree_def t' using 0 1 2 3 by simp
  qed
qed

lemma spread_structure:
  assumes "upd_id updates = None" and "upd_parentId updates = None"
    and "upd_childrenIds updates = None"
  shows "node_id (spread node updates) = node_id node"
    and "parentId (spread node updates) = parentId node"
    and "childrenIds (spread node updates) = childrenIds node"
  using assms by (simp_all add: spread_def spread_field_def)

lemma wf_updateNode:
  assumes wf: "wf_tree (tree state)" and adm: "admissible (tree state) (UpdateNode k updates)"
  shows "wf_tree (tree (updateNode env k updates state))"
proof (cases "Map_get (nodes (tree state)) k")
  case None
  then show ?thesis using wf by (simp add: tree_updateNode)
next
  case (Some node)
  let ?ns = "nodes (tree state)"
  let ?v = "spread node updates"
  from wf have dist: "distinct (map fst ?ns)" and pf: "parents_first [] ?ns"
    and links: "links (Map_get ?ns)"
    and roots: "set (rootIds (tree state))
                  = {k. \<exists>n. Map_get ?ns k = Some n \<and> parentId n = None}"
    by (simp_all add: wf_tree_def)
  from adm have str: "node_id ?v = node_id node" "parentId ?v = parentId node"
      "childrenIds ?v = childrenIds node"
    by (simp_all add: spread_structure)
  have t': "tree (updateNode env k updates state) = (tree state)\<lparr> nodes := AList.update k ?v ?ns \<rparr>"
    by (simp add: tree_updateNode Some)
  have k_in: "k \<in> fst ` set ?ns" using Some by (metis map_of_eq_None_iff option.distinct(1))
  have same_parent: "\<forall>n. (k, n) \<in> set ?ns \<longrightarrow> parentId n = parentId ?v"
  proof (intro allI impI)
    fix n assume "(k, n) \<in> set ?ns"
    with dist have "Map_get ?ns k = Some n" by (simp add: map_of_is_SomeI)
    with Some str show "parentId n = parentId ?v" by simp
  qed
  have "parents_first [] (AList.update k ?v ?ns)"
    using pf same_parent k_in by (rule parents_first_update)
  moreover have "distinct (map fst (AList.update k ?v ?ns))"
    using dist by (rule distinct_update)
  moreover have "links (Map_get (AList.update k ?v ?ns))"
    using links_update [OF links Some str] by (simp only: update_conv')
  moreover have "set (rootIds (tree state))
                   = {q. \<exists>n. Map_get (AList.update k ?v ?ns) q = Some n \<and> parentId n = None}"
    using roots Some str(2) by (auto simp: update_conv')
  ultimately show ?thesis by (simp add: wf_tree_def t')
qed

lemma wf_deleteNode:
  assumes wf: "wf_tree (tree state)" and adm: "admissible (tree state) (DeleteNode k)"
    and del: "deleteNode stack env k state = Some state'"
  shows "wf_tree (tree state')"
proof (cases "Map_get (nodes (tree state)) k")
  case None
  then show ?thesis using wf deleteNode_tree [OF del] by simp
next
  case (Some node)
  let ?ns = "nodes (tree state)"
  let ?del = "AList.delete k ?ns"
  let ?roots = "filter (\<lambda>rootId. rootId \<noteq> k) (rootIds (tree state))"
  from wf have dist: "distinct (map fst ?ns)" and pf: "parents_first [] ?ns"
    and links: "links (Map_get ?ns)"
    and roots: "set (rootIds (tree state))
                  = {k. \<exists>n. Map_get ?ns k = Some n \<and> parentId n = None}"
    by (simp_all add: wf_tree_def)
  from adm Some have leaf: "childrenIds node = []" by simp
  have no_child: "\<forall>(k', n') \<in> set ?ns. parentId n' \<noteq> Some k"
  proof (intro ballI, clarify)
    fix k' n' assume "(k', n') \<in> set ?ns" and "parentId n' = Some k"
    with dist have "Map_get ?ns k' = Some n'" by (simp add: map_of_is_SomeI)
    with \<open>parentId n' = Some k\<close> have "k' \<in> set (childrenIds node)"
      using linksD(3) [OF links Some] by blast
    with leaf show False by simp
  qed
  have dist_del: "distinct (map fst ?del)" using dist by (rule distinct_delete)
  have map_del: "Map_get ?del = (Map_get ?ns)(k := None)" by (rule delete_conv')
  have "parents_first (removeAll k []) ?del" using pf no_child by (rule parents_first_delete)
  then have pf_del: "parents_first [] ?del" by simp
  have roots_del: "\<And>M'. (\<And>q. (\<exists>n. M' q = Some n \<and> parentId n = None)
                         \<longleftrightarrow> q \<noteq> k \<and> (\<exists>n. Map_get ?ns q = Some n \<and> parentId n = None))
                    \<Longrightarrow> set ?roots = {q. \<exists>n. M' q = Some n \<and> parentId n = None}"
    using roots by auto
  show ?thesis
  proof (cases "parentId node")
    case None
    have t': "tree state' = \<lparr> nodes = ?del, rootIds = ?roots \<rparr>"
      using deleteNode_tree [OF del] by (simp add: Some None)
    have 2: "links (Map_get ?del)"
      unfolding map_del by (rule links_delete_leaf(1) [OF links Some leaf None])
    have 3: "set ?roots = {q. \<exists>n. Map_get ?del q = Some n \<and> parentId n = None}"
      unfolding map_del by (rule roots_del) auto
    show ?thesis unfolding wf_tree_def t' using dist_del pf_del 2 3 by simp
  next
    case (Some p)
    note par = Some
    have p: "truthy p" using wf \<open>Map_get ?ns k = Some node\<close> par by (rule wf_parent_truthy)
    obtain parent where parent: "Map_get ?ns p = Some parent"
      using linksD(4) [OF links \<open>Map_get ?ns k = Some node\<close> par] by auto
    have pk: "p \<noteq> k"
    proof
      assume "p = k"
      then have "k \<in> set (childrenIds node)"
        using linksD(3) [OF links \<open>Map_get ?ns k = Some node\<close>, of k] par
              \<open>Map_get ?ns k = Some node\<close> by blast
      with leaf show False by simp
    qed
    let ?parent' = "parent\<lparr> childrenIds := filter (\<lambda>childId. childId \<noteq> k) (childrenIds parent) \<rparr>"
    have lookup: "Map_get ?del p = Some parent" using parent pk by (simp add: map_del)
    have t': "tree state' = \<lparr> nodes = AList.update p ?parent' ?del, rootIds = ?roots \<rparr>"
      using deleteNode_tree [OF del] by (simp add: \<open>Map_get ?ns k = Some node\<close> par p lookup)
    have same_parent: "\<forall>n. (p, n) \<in> set ?del \<longrightarrow> parentId n = parentId ?parent'"
    proof (intro allI impI)
      fix n assume "(p, n) \<in> set ?del"
      with dist_del have "Map_get ?del p = Some n" by (rule map_of_is_SomeI)
      with lookup show "parentId n = parentId ?parent'" by simp
    qed
    have p_in: "p \<in> fst ` set ?del"
      using lookup by (metis map_of_eq_None_iff option.distinct(1))
    have 0: "distinct (map fst (AList.update p ?parent' ?del))"
      using dist_del by (rule distinct_update)
    have 1: "parents_first [] (AList.update p ?parent' ?del)"
      using pf_del same_parent p_in by (rule parents_first_update)
    have map_new: "Map_get (AList.update p ?parent' ?del)
                     = ((Map_get ?ns)(k := None))(p \<mapsto> ?parent')"
      by (simp only: update_conv' map_del)
    have 2: "links (Map_get (AList.update p ?parent' ?del))"
      unfolding map_new
      by (rule links_delete_leaf(2) [OF links \<open>Map_get ?ns k = Some node\<close> leaf par parent])
    have 3: "set ?roots
               = {q. \<exists>n. Map_get (AList.update p ?parent' ?del) q = Some n \<and> parentId n = None}"
      unfolding map_new using parent pk by (intro roots_del) (auto split: if_splits)
    show ?thesis unfolding wf_tree_def t' using 0 1 2 3 by simp
  qed
qed

subsection \<open>A well-formed tree satisfies the four invariants\<close>

lemma wf_invariant_1: assumes "wf_tree t" shows "invariant_1 t"
proof -
  from assms have dist: "distinct (map fst (nodes t))" and links: "links (Map_get (nodes t))"
    by (simp_all add: wf_tree_def)
  have "\<And>k n p. (k, n) \<in> set (nodes t) \<Longrightarrow> parentId n = Some p \<Longrightarrow>
          \<exists>parent. Map_get (nodes t) p = Some parent \<and> node_id n \<in> set (childrenIds parent)"
  proof -
    fix k n p assume "(k, n) \<in> set (nodes t)" and par: "parentId n = Some p"
    with dist have kn: "Map_get (nodes t) k = Some n" by (simp add: map_of_is_SomeI)
    from linksD(4) [OF links kn par] obtain parent where
      parent: "Map_get (nodes t) p = Some parent" by auto
    have "k \<in> set (childrenIds parent)"
      using linksD(3) [OF links parent, of k] kn par by blast
    with linksD(1) [OF links kn] parent
    show "\<exists>parent. Map_get (nodes t) p = Some parent \<and> node_id n \<in> set (childrenIds parent)"
      by simp
  qed
  then show ?thesis
    unfolding invariant_1_def list_all_iff by (fastforce split: option.splits)
qed

lemma wf_invariant_2: assumes "wf_tree t" shows "invariant_2 t"
proof -
  from assms have dist: "distinct (map fst (nodes t))"
    and roots: "set (rootIds t) = {k. \<exists>n. Map_get (nodes t) k = Some n \<and> parentId n = None}"
    by (simp_all add: wf_tree_def)
  have "\<And>k. (\<exists>n. Map_get (nodes t) k = Some n \<and> parentId n = None)
          \<longleftrightarrow> (\<exists>n. (k, n) \<in> set (nodes t) \<and> parentId n = None)"
    using dist by (auto simp: map_of_is_SomeI dest: map_of_SomeD)
  then show ?thesis
    unfolding invariant_2_def roots by (auto simp: image_iff)
qed

lemma wf_invariant_3: assumes "wf_tree t" shows "invariant_3 t"
proof -
  from assms have dist: "distinct (map fst (nodes t))" and pf: "parents_first [] (nodes t)"
    by (simp_all add: wf_tree_def)
  have "\<And>k n. (k, n) \<in> set (nodes t) \<Longrightarrow> reaches_root (Map_size (nodes t)) (nodes t) k"
    using wf_reaches_root [OF dist pf] by (metis fst_conv image_eqI)
  then show ?thesis unfolding invariant_3_def list_all_iff by auto
qed

lemma wf_invariant_4: assumes "wf_tree t" shows "invariant_4 t"
proof -
  from assms have dist: "distinct (map fst (nodes t))" and links: "links (Map_get (nodes t))"
    by (simp_all add: wf_tree_def)
  have "\<And>k n. (k, n) \<in> set (nodes t) \<Longrightarrow>
          distinct (childrenIds n) \<and> (\<forall>c \<in> set (childrenIds n). Map_get (nodes t) c \<noteq> None)"
  proof -
    fix k n assume "(k, n) \<in> set (nodes t)"
    with dist have kn: "Map_get (nodes t) k = Some n" by (simp add: map_of_is_SomeI)
    show "distinct (childrenIds n) \<and> (\<forall>c \<in> set (childrenIds n). Map_get (nodes t) c \<noteq> None)"
      using linksD(2,3) [OF links kn] by auto
  qed
  then show ?thesis unfolding invariant_4_def list_all_iff by auto
qed

subsection \<open>Sequences of admissible calls\<close>

lemma admissible_call_returns:
  assumes "0 < stack" and "admissible (tree state) c"
  shows "\<exists>state'. call stack env c state = Some state'"
proof (cases c)
  case (DeleteNode k)
  from assms(1) obtain depth where "stack = Suc depth" by (cases stack) auto
  with assms(2) show ?thesis
    by (auto simp: DeleteNode Let_def split: option.splits)
qed simp_all

lemma wf_call:
  assumes "wf_tree (tree state)" and "admissible (tree state) c"
    and "call stack env c state = Some state'"
  shows "wf_tree (tree state')"
proof (cases c)
  case (AddNode node)
  with assms show ?thesis using wf_addNode by auto
next
  case (UpdateNode k updates)
  with assms show ?thesis using wf_updateNode by auto
next
  case (DeleteNode k)
  with assms show ?thesis using wf_deleteNode by auto
qed

lemma wf_admissible_run:
  "admissible_run stack cs state = Some state' \<Longrightarrow> wf_tree (tree state)
   \<Longrightarrow> wf_tree (tree state')"
proof (induction cs arbitrary: state)
  case Nil
  then show ?case by simp
next
  case (Cons x cs)
  obtain env c where x: "x = (env, c)" by (cases x)
  from Cons.prems(1) obtain mid where adm: "admissible (tree state) c"
    and step: "call stack env c state = Some mid"
    and rest: "admissible_run stack cs mid = Some state'"
    by (auto simp: x split: if_splits option.splits)
  from wf_call [OF Cons.prems(2) adm step] have "wf_tree (tree mid)" .
  from Cons.IH [OF rest this] show ?case .
qed

lemma example_run:
  "map_option tree (admissible_run (Suc 0) example_calls initialState)
     = Some \<lparr> nodes = [(''A'', (example_node ''A'' None)\<lparr> isCollapsed := True \<rparr>)],
              rootIds = [''A''] \<rparr>"
  by (simp add: example_calls_def tree_addNode tree_updateNode initialState_def initialTree_def
        truthy_def no_updates_def Let_def AList.delete_eq spread_def spread_field_def
        example_node_def)

text \<open>
  Claim C2, amended. Starting from the empty tree, after any sequence of calls in which
  every \<^verbatim>\<open>addNode\<close> inserts a node with a new id, with empty \<^verbatim>\<open>childrenIds\<close> and with a
  \<^verbatim>\<open>parentId\<close> that is \<^verbatim>\<open>null\<close> or the non-empty id of a node of the tree, every \<^verbatim>\<open>updateNode\<close>
  supplies none of \<^verbatim>\<open>id\<close>, \<^verbatim>\<open>parentId\<close>, \<^verbatim>\<open>childrenIds\<close>, and every \<^verbatim>\<open>deleteNode\<close> names an
  unknown id or a node without children, the four structural invariants hold: every
  non-null \<^verbatim>\<open>parentId\<close> is the key of a node whose \<^verbatim>\<open>childrenIds\<close> contains the child's id;
  the root sequence holds exactly the ids of the nodes without parent; following
  \<^verbatim>\<open>parentId\<close> from any node arrives at a root within the node count; no \<^verbatim>\<open>childrenIds\<close> has
  a duplicate or the id of a missing node. (Such calls always return: lemma
  \<open>admissible_call_returns\<close>.)
\<close>

theorem invariants_after_admissible_calls:
  assumes "admissible_run stack cs initialState = Some state"
  shows "invariant_1 (tree state) \<and> invariant_2 (tree state)
         \<and> invariant_3 (tree state) \<and> invariant_4 (tree state)"
proof -
  have "wf_tree (tree initialState)" by (simp add: initialState_def wf_initialTree)
  from wf_admissible_run [OF assms this] have "wf_tree (tree state)" .
  then show ?thesis
    by (simp add: wf_invariant_1 wf_invariant_2 wf_invariant_3 wf_invariant_4)
qed

theorem invariants_after_admissible_calls_witness:
  "map_option tree (admissible_run (Suc 0) example_calls initialState)
     = Some \<lparr> nodes = [(''A'', (example_node ''A'' None)\<lparr> isCollapsed := True \<rparr>)],
              rootIds = [''A''] \<rparr>
   \<and> invariant_1 \<lparr> nodes = [(''A'', (example_node ''A'' None)\<lparr> isCollapsed := True \<rparr>)],
                    rootIds = [''A''] \<rparr>
   \<and> invariant_2 \<lparr> nodes = [(''A'', (example_node ''A'' None)\<lparr> isCollapsed := True \<rparr>)],
                    rootIds = [''A''] \<rparr>
   \<and> invariant_3 \<lparr> nodes = [(''A'', (example_node ''A'' None)\<lparr> isCollapsed := True \<rparr>)],
                    rootIds = [''A''] \<rparr>
   \<and> invariant_4 \<lparr> nodes = [(''A'', (example_node ''A'' None)\<lparr> isCollapsed := True \<rparr>)],
                    rootIds = [''A''] \<rparr>"
proof -
  from example_run obtain state where
    run: "admissible_run (Suc 0) example_calls initialState = Some state"
    and t: "tree state = \<lparr> nodes = [(''A'', (example_node ''A'' None)\<lparr> isCollapsed := True \<rparr>)],
                             rootIds = [''A''] \<rparr>"
    by auto
  from invariants_after_admissible_calls [OF run] show ?thesis
    using example_run by (simp add: t)
qed

text \<open>
  The claim as stated (after any sequence of calls) fails at the first call: \<^verbatim>\<open>addNode\<close> of a
  node whose parent is not in the tree stores the node all the same, and its \<^verbatim>\<open>parentId\<close>
  identifies no node.
\<close>

theorem addNode_unknown_parent:
  "tree (addNode example_env (example_node ''B'' (Some ''A'')) initialState)
     = \<lparr> nodes = [(''B'', example_node ''B'' (Some ''A''))], rootIds = [] \<rparr>
   \<and> \<not> invariant_1 (tree (addNode example_env (example_node ''B'' (Some ''A'')) initialState))"
  by (simp add: tree_addNode initialState_def initialTree_def truthy_def invariant_1_def)

section \<open>Properties of the layout\<close>

subsection \<open>Hops to a root\<close>

lemma hops_mono: "hops a m k = Some d \<Longrightarrow> a \<le> b \<Longrightarrow> hops b m k = Some d"
proof (induction a arbitrary: b k d)
  case 0
  then show ?case by simp
next
  case (Suc a)
  then obtain b' where b: "b = Suc b'" and le: "a \<le> b'" by (cases b) auto
  show ?case
  proof (cases "Map_get m k")
    case None
    with Suc.prems show ?thesis by simp
  next
    case (Some node)
    show ?thesis
    proof (cases "parentId node")
      case None
      with Some Suc.prems show ?thesis by (simp add: b)
    next
      case (Some p)
      with \<open>Map_get m k = Some node\<close> Suc.prems(1) obtain d' where
        d': "hops a m p = Some d'" "d = Suc d'" by auto
      from Suc.IH [OF d'(1) le] show ?thesis
        by (simp add: b \<open>Map_get m k = Some node\<close> Some d'(2))
    qed
  qed
qed

lemma hops_unique: "hops a m k = Some d \<Longrightarrow> hops b m k = Some d' \<Longrightarrow> d = d'"
  using hops_mono [of a m k d "max a b"] hops_mono [of b m k d' "max a b"] by simp

lemma hops_less: "hops a m k = Some d \<Longrightarrow> d < a"
proof (induction a arbitrary: k d)
  case 0
  then show ?case by simp
next
  case (Suc a)
  then show ?case by (fastforce split: option.splits)
qed

lemma reaches_root_hops: "reaches_root n m k \<longleftrightarrow> hops n m k \<noteq> None"
  by (induction n arbitrary: k) (auto split: option.splits)

subsection \<open>calculateDepth computes the hops\<close>

lemma calculateDepth_hops:
  assumes "hops f (nodes t) k = Some d" and "f \<le> L" and "d < stack"
    and "\<forall>k' d'. Map_get dm k' = Some d' \<longrightarrow> hops L (nodes t) k' = Some d'"
    and "\<forall>k' n. Map_get (nodes t) k' = Some n \<longrightarrow> parentId n \<noteq> Some []"
  shows "\<exists>dm'. calculateDepth stack t k dm = Some (d, dm')
           \<and> (\<forall>k' d'. Map_get dm' k' = Some d' \<longrightarrow> hops L (nodes t) k' = Some d')"
  using assms
proof (induction stack arbitrary: f k d dm)
  case 0
  then show ?case by simp
next
  case (Suc stack)
  note ok = Suc.prems(4) and nonempty = Suc.prems(5)
  have at_L: "hops L (nodes t) k = Some d" using Suc.prems(1,2) by (rule hops_mono)
  show ?case
  proof (cases "Map_get dm k")
    case (Some d0)
    with ok have "hops L (nodes t) k = Some d0" by blast
    with at_L have "d0 = d" by simp
    with Some ok show ?thesis by simp
  next
    case None
    note memo = None
    from Suc.prems(1) obtain f' where f: "f = Suc f'" by (cases f) auto
    from Suc.prems(1) obtain node where node: "Map_get (nodes t) k = Some node"
      by (auto simp: f split: option.splits)
    have ok_set: "\<forall>k' d'. Map_get (Map_set dm k d) k' = Some d' \<longrightarrow> hops L (nodes t) k' = Some d'"
      using ok at_L by (auto simp: update_conv')
    show ?thesis
    proof (cases "parentId node")
      case None
      with Suc.prems(1) node have "d = 0" by (simp add: f)
      with memo node None ok_set show ?thesis by simp
    next
      case (Some p)
      with node nonempty have p: "truthy p" by (auto simp: truthy_def)
      from Suc.prems(1) node Some obtain d' where d': "hops f' (nodes t) p = Some d'" "d = Suc d'"
        by (auto simp: f)
      have "f' \<le> L" using Suc.prems(2) f by simp
      moreover have "d' < stack" using Suc.prems(3) d'(2) by simp
      ultimately obtain dm' where
        rec: "calculateDepth stack t p dm = Some (d', dm')"
        and ok': "\<forall>k' d'. Map_get dm' k' = Some d' \<longrightarrow> hops L (nodes t) k' = Some d'"
        using Suc.IH [OF d'(1) _ _ ok nonempty] by blast
      have "\<forall>k' x. Map_get (Map_set dm' k d) k' = Some x \<longrightarrow> hops L (nodes t) k' = Some x"
        using ok' at_L by (auto simp: update_conv')
      with memo node Some p rec d'(2) show ?thesis by simp
    qed
  qed
qed

lemma calculateDepth_mono:
  "calculateDepth s t k dm = Some r \<Longrightarrow> s \<le> s' \<Longrightarrow> calculateDepth s' t k dm = Some r"
proof (induction s arbitrary: s' k dm r)
  case 0
  then show ?case by simp
next
  case (Suc s)
  then obtain s0 where s': "s' = Suc s0" and le: "s \<le> s0" by (cases s') auto
  show ?case
  proof (cases "calculateDepth s t (the (parentId (the (Map_get (nodes t) k)))) dm")
    case None
    with Suc.prems(1) show ?thesis
      by (auto simp: s' split: option.splits if_splits)
  next
    case (Some r0)
    from Suc.IH [OF Some le] Some Suc.prems(1) show ?thesis
      by (auto simp: s' split: option.splits if_splits)
  qed
qed

subsection \<open>The groups\<close>

lemma group_by_depth_groups:
  assumes "\<forall>(k, n) \<in> set rest. node_id n = k \<and> (\<exists>d. hops L (nodes t) k = Some d)"
    and "L < stack"
    and "\<forall>k' d'. Map_get dm k' = Some d' \<longrightarrow> hops L (nodes t) k' = Some d'"
    and "\<forall>k' n. Map_get (nodes t) k' = Some n \<longrightarrow> parentId n \<noteq> Some []"
    and "\<forall>d. Map_get nbd d =
           (if filter (\<lambda>k. hops L (nodes t) k = Some d) ids = [] then None
            else Some (filter (\<lambda>k. hops L (nodes t) k = Some d) ids))"
    and "distinct (map fst nbd)"
  shows "\<exists>nbd'. group_by_depth stack t rest dm nbd = Some nbd'
           \<and> distinct (map fst nbd')
           \<and> (\<forall>d. Map_get nbd' d =
                 (if filter (\<lambda>k. hops L (nodes t) k = Some d) (ids @ map fst rest) = [] then None
                  else Some (filter (\<lambda>k. hops L (nodes t) k = Some d) (ids @ map fst rest))))"
  using assms
proof (induction rest arbitrary: dm nbd ids)
  case Nil
  then show ?case by simp
next
  case (Cons x rest)
  obtain k n where x: "x = (k, n)" by (cases x)
  from Cons.prems(1) obtain d where id: "node_id n = k" and d: "hops L (nodes t) k = Some d"
    by (auto simp: x)
  have "d < stack" using hops_less [OF d] Cons.prems(2) by simp
  from calculateDepth_hops [OF d order_refl this Cons.prems(3,4)] obtain dm' where
    depth: "calculateDepth stack t k dm = Some (d, dm')"
    and ok': "\<forall>k' d'. Map_get dm' k' = Some d' \<longrightarrow> hops L (nodes t) k' = Some d'"
    by blast
  let ?G = "\<lambda>ids d. filter (\<lambda>k. hops L (nodes t) k = Some d) ids"
  let ?nbd' = "Map_set nbd d ((case Map_get nbd d of None \<Rightarrow> [] | Some ids \<Rightarrow> ids) @ [k])"
  have old: "(case Map_get nbd d of None \<Rightarrow> [] | Some ids \<Rightarrow> ids) = ?G ids d"
    using Cons.prems(5) by (simp split: option.splits)
  have groups': "\<forall>e. Map_get ?nbd' e =
           (if ?G (ids @ [k]) e = [] then None else Some (?G (ids @ [k]) e))"
  proof
    fix e
    show "Map_get ?nbd' e = (if ?G (ids @ [k]) e = [] then None else Some (?G (ids @ [k]) e))"
    proof (cases "e = d")
      case True
      then show ?thesis using d by (simp add: update_conv' old)
    next
      case False
      then have "?G (ids @ [k]) e = ?G ids e" using d by auto
      with False Cons.prems(5) show ?thesis by (simp add: update_conv')
    qed
  qed
  have dist': "distinct (map fst ?nbd')" using Cons.prems(6) by (rule distinct_update)
  have rest: "\<forall>(k, n) \<in> set rest. node_id n = k \<and> (\<exists>d. hops L (nodes t) k = Some d)"
    using Cons.prems(1) by simp
  from Cons.IH [OF rest Cons.prems(2) ok' Cons.prems(4) groups' dist'] obtain res where
    res: "group_by_depth stack t rest dm' ?nbd' = Some res" "distinct (map fst res)"
      "\<forall>e. Map_get res e =
           (if ?G ((ids @ [k]) @ map fst rest) e = [] then None
            else Some (?G ((ids @ [k]) @ map fst rest) e))"
    by blast
  have "group_by_depth stack t (x # rest) dm nbd = Some res"
    using depth res(1) by (simp add: x id)
  with res(2,3) show ?case by (simp add: x)
qed

lemma group_by_depth_mono:
  "group_by_depth s t rest dm nbd = Some r \<Longrightarrow> s \<le> s'
   \<Longrightarrow> group_by_depth s' t rest dm nbd = Some r"
proof (induction rest arbitrary: dm nbd)
  case Nil
  then show ?case by simp
next
  case (Cons x rest)
  obtain k n where x: "x = (k, n)" by (cases x)
  from Cons.prems(1) obtain d dm' where
    depth: "calculateDepth s t (node_id n) dm = Some (d, dm')"
    and rest: "group_by_depth s t rest dm'
                 (Map_set nbd d ((case Map_get nbd d of None \<Rightarrow> [] | Some ids \<Rightarrow> ids)
                    @ [node_id n])) = Some r"
    by (auto simp: x split: option.splits)
  from calculateDepth_mono [OF depth Cons.prems(2)] Cons.IH [OF rest Cons.prems(2)]
  show ?case by (simp add: x)
qed

subsection \<open>The positions\<close>

lemma place_level_fold:
  "place_level d ids positions
     = fold (\<lambda>(k, v) m. Map_set m k v) (level_entries d ids) positions"
  by (simp add: place_level_def level_entries_def Let_def fold_map comp_def split_def)

lemma fold_levels:
  "fold (\<lambda>d positions. place_level d (groups d) positions) ds positions
     = fold (\<lambda>(k, v) m. Map_set m k v)
         (concat (map (\<lambda>d. level_entries d (groups d)) ds)) positions"
  by (induction ds arbitrary: positions) (simp_all add: place_level_fold)

lemma map_fst_level_entries: "map fst (level_entries d ids) = ids"
  by (simp add: level_entries_def case_prod_beta comp_def map_snd_enumerate)

lemma map_of_fold_set:
  "distinct (map fst kvs) \<Longrightarrow>
   Map_get (fold (\<lambda>(k, v) m. Map_set m k v) kvs m0) = Map_get m0 ++ Map_get kvs"
proof (induction kvs arbitrary: m0)
  case Nil
  then show ?case by simp
next
  case (Cons x kvs)
  obtain k v where x: "x = (k, v)" by (cases x)
  from Cons.prems have notin: "k \<notin> fst ` set kvs" and dist: "distinct (map fst kvs)"
    by (auto simp: x)
  have "Map_get (fold (\<lambda>(k, v) m. Map_set m k v) (x # kvs) m0)
          = Map_get (Map_set m0 k v) ++ Map_get kvs"
    using Cons.IH [OF dist] by (simp add: x)
  also have "\<dots> = (Map_get m0)(k \<mapsto> v) ++ Map_get kvs" by (simp only: update_conv')
  also have "\<dots> = Map_get m0 ++ Map_get (x # kvs)"
  proof
    fix q
    have "Map_get kvs k = None" using notin by (simp add: map_of_eq_None_iff)
    then show "((Map_get m0)(k \<mapsto> v) ++ Map_get kvs) q = (Map_get m0 ++ Map_get (x # kvs)) q"
      by (auto simp: x map_add_def split: option.splits)
  qed
  finally show ?case .
qed

lemma distinct_fold_set:
  "distinct (map fst m0) \<Longrightarrow> distinct (map fst (fold (\<lambda>(k, v) m. Map_set m k v) kvs m0))"
  by (induction kvs arbitrary: m0) (auto simp: distinct_update)

lemma calculateAutoLayout_mono:
  "calculateAutoLayout s t = Some r \<Longrightarrow> s \<le> s' \<Longrightarrow> calculateAutoLayout s' t = Some r"
  by (auto simp: calculateAutoLayout_def calculateSimpleLayout_def Let_def
        dest: group_by_depth_mono split: if_splits option.splits)

lemma layout_of_well_formed_tree:
  assumes own: "own_ids t" and inv3: "invariant_3 t" and stack: "Map_size (nodes t) < stack"
  shows "\<exists>positions. calculateAutoLayout stack t = Some positions
           \<and> distinct (map fst positions)
           \<and> set (map fst positions) = set (map fst (nodes t))
           \<and> (\<forall>d i. i < length (depth_group t d) \<longrightarrow>
                 Map_get positions (depth_group t d ! i)
                   = Some (startX + int i * (NODE_WIDTH + HORIZONTAL_SPACING)
                             + int d * (NODE_WIDTH + 100),
                           startY + int d * VERTICAL_SPACING))"
proof (cases "nodes t = []")
  case True
  then show ?thesis by (simp add: calculateAutoLayout_def depth_group_def)
next
  case False
  let ?N = "nodes t"
  let ?L = "Map_size ?N"
  from own have dist: "distinct (map fst ?N)"
    and ids: "\<forall>(k, n) \<in> set ?N. node_id n = k \<and> parentId n \<noteq> Some []"
    by (simp_all add: own_ids_def list_all_iff)
  have nonempty: "\<forall>k' n. Map_get ?N k' = Some n \<longrightarrow> parentId n \<noteq> Some []"
    using ids by (auto dest: map_of_SomeD)
  have has_hops: "\<forall>(k, n) \<in> set ?N. \<exists>d. hops ?L ?N k = Some d"
    using inv3 by (auto simp: invariant_3_def list_all_iff reaches_root_hops)
  have rest: "\<forall>(k, n) \<in> set ?N. node_id n = k \<and> (\<exists>d. hops ?L ?N k = Some d)"
    using ids has_hops by auto
  have "\<exists>nbd'. group_by_depth stack t ?N [] [] = Some nbd'
           \<and> distinct (map fst nbd')
           \<and> (\<forall>d. Map_get nbd' d =
                 (if filter (\<lambda>k. hops ?L ?N k = Some d) ([] @ map fst ?N) = [] then None
                  else Some (filter (\<lambda>k. hops ?L ?N k = Some d) ([] @ map fst ?N))))"
    by (rule group_by_depth_groups [OF rest stack _ nonempty]) simp_all
  then obtain nbd where grouped: "group_by_depth stack t ?N [] [] = Some nbd"
    and dist_nbd: "distinct (map fst nbd)"
    and groups: "\<forall>d. Map_get nbd d = (if depth_group t d = [] then None else Some (depth_group t d))"
    by (auto simp: depth_group_def)
  have group_at: "\<And>d. (case Map_get nbd d of None \<Rightarrow> [] | Some ids \<Rightarrow> ids) = depth_group t d"
    using groups by simp
  let ?ds = "sort (map fst nbd)"
  let ?all = "concat (map (\<lambda>d. level_entries d (depth_group t d)) ?ds)"
  let ?positions = "fold (\<lambda>(k, v) m. Map_set m k v) ?all []"
  have result: "calculateAutoLayout stack t = Some ?positions"
    using False grouped
    by (simp add: calculateAutoLayout_def calculateSimpleLayout_def Let_def group_at
          fold_levels [symmetric])
  have ds: "\<And>d. d \<in> set ?ds \<longleftrightarrow> depth_group t d \<noteq> []"
  proof -
    fix d
    have "d \<in> set ?ds \<longleftrightarrow> Map_get nbd d \<noteq> None"
      by (simp add: map_of_eq_None_iff)
    then show "d \<in> set ?ds \<longleftrightarrow> depth_group t d \<noteq> []" using groups by simp
  qed
  have dist_ds: "distinct ?ds" using dist_nbd by simp
  have keys_all: "map fst ?all = concat (map (depth_group t) ?ds)"
    by (simp add: map_concat comp_def map_fst_level_entries)
  have in_group: "\<And>k d. k \<in> set (depth_group t d) \<longleftrightarrow> k \<in> set (map fst ?N) \<and> hops ?L ?N k = Some d"
    by (auto simp: depth_group_def)
  have dist_all: "distinct (map fst ?all)"
    unfolding keys_all
  proof (rule distinct_concat)
    show "distinct (map (depth_group t) ?ds)"
    proof (rule iffD2 [OF distinct_map], intro conjI inj_onI)
      show "distinct ?ds" by (rule dist_ds)
      fix d e assume d: "d \<in> set ?ds" and e: "e \<in> set ?ds"
        and eq: "depth_group t d = depth_group t e"
      from d ds obtain k where k: "k \<in> set (depth_group t d)" by (cases "depth_group t d") auto
      then have "hops ?L ?N k = Some d" by (simp only: in_group)
      moreover from k have "k \<in> set (depth_group t e)" by (simp only: eq)
      then have "hops ?L ?N k = Some e" by (simp only: in_group)
      ultimately show "d = e" by simp
    qed
  next
    fix ys assume "ys \<in> set (map (depth_group t) ?ds)"
    then show "distinct ys" using dist by (auto simp: depth_group_def)
  next
    fix ys zs assume "ys \<in> set (map (depth_group t) ?ds)" "zs \<in> set (map (depth_group t) ?ds)"
      and "ys \<noteq> zs"
    then show "set ys \<inter> set zs = {}" using in_group by auto
  qed
  have lookup: "Map_get ?positions = Map_get ?all"
    using map_of_fold_set [OF dist_all, of "[]"] by simp
  have 1: "distinct (map fst ?positions)"
    by (rule distinct_fold_set) simp
  have "set (map fst ?positions) = dom (Map_get ?positions)"
    by (simp add: dom_map_of_conv_image_fst)
  also have "\<dots> = set (map fst ?all)"
    by (simp only: lookup dom_map_of_conv_image_fst set_map)
  also have "\<dots> = set (map fst ?N)"
  proof
    show "set (map fst ?all) \<subseteq> set (map fst ?N)"
      unfolding keys_all using in_group by auto
    show "set (map fst ?N) \<subseteq> set (map fst ?all)"
    proof
      fix k assume k: "k \<in> set (map fst ?N)"
      with has_hops obtain d where d: "hops ?L ?N k = Some d" by auto
      with k in_group have "k \<in> set (depth_group t d)" by simp
      moreover from this ds have "d \<in> set ?ds" by auto
      ultimately show "k \<in> set (map fst ?all)" unfolding keys_all by auto
    qed
  qed
  finally have 2: "set (map fst ?positions) = set (map fst ?N)" .
  have 3: "\<forall>d i. i < length (depth_group t d) \<longrightarrow>
             Map_get ?positions (depth_group t d ! i)
               = Some (startX + int i * (NODE_WIDTH + HORIZONTAL_SPACING)
                         + int d * (NODE_WIDTH + 100),
                       startY + int d * VERTICAL_SPACING)"
  proof (intro allI impI)
    fix d i assume i: "i < length (depth_group t d)"
    let ?v = "(startX + int i * (NODE_WIDTH + HORIZONTAL_SPACING) + int d * (NODE_WIDTH + 100),
               startY + int d * VERTICAL_SPACING)"
    from i have "depth_group t d \<noteq> []" by auto
    with ds have d: "d \<in> set ?ds" by simp
    have "(i, depth_group t d ! i) \<in> set (List.enumerate 0 (depth_group t d))"
      using i by (simp add: in_set_enumerate_eq)
    then have "(depth_group t d ! i, ?v) \<in> set (level_entries d (depth_group t d))"
      unfolding level_entries_def by force
    with d have "(depth_group t d ! i, ?v) \<in> set ?all" by auto
    with dist_all have "Map_get ?all (depth_group t d ! i) = Some ?v" by (rule map_of_is_SomeI)
    then show "Map_get ?positions (depth_group t d ! i) = Some ?v" by (simp only: lookup)
  qed
  from result 1 2 3 show ?thesis by blast
qed

lemma self_parent_tree_eq:
  "self_parent_tree =
     \<lparr> nodes = [(''A'', (example_node ''A'' (Some ''A''))\<lparr> childrenIds := [''A''] \<rparr>)],
       rootIds = [] \<rparr>"
  by (simp add: self_parent_tree_def tree_addNode initialState_def initialTree_def truthy_def)

lemma self_parent_depth:
  "Map_get depthMap ''A'' = None \<Longrightarrow> calculateDepth stack self_parent_tree ''A'' depthMap = None"
  by (induction stack) (simp_all add: self_parent_tree_eq truthy_def)

lemma self_parent_no_layout: "calculateAutoLayout stack self_parent_tree = None"
proof -
  have "calculateDepth stack self_parent_tree ''A'' [] = None"
    by (rule self_parent_depth) simp
  then show ?thesis
    by (simp add: calculateAutoLayout_def calculateSimpleLayout_def self_parent_tree_eq)
qed

lemma wf_own_ids: assumes "wf_tree t" shows "own_ids t"
proof -
  from assms have dist: "distinct (map fst (nodes t))" and links: "links (Map_get (nodes t))"
    by (simp_all add: wf_tree_def)
  have "\<And>k n. (k, n) \<in> set (nodes t) \<Longrightarrow> node_id n = k \<and> parentId n \<noteq> Some []"
  proof -
    fix k n assume "(k, n) \<in> set (nodes t)"
    with dist have kn: "Map_get (nodes t) k = Some n" by (simp add: map_of_is_SomeI)
    have "parentId n \<noteq> Some []"
      using wf_parent_truthy [OF assms kn] by (auto simp: truthy_def)
    with linksD(1) [OF links kn] show "node_id n = k \<and> parentId n \<noteq> Some []" by simp
  qed
  with dist show ?thesis unfolding own_ids_def list_all_iff by auto
qed

lemma depth_group_state_AB:
  "depth_group (tree state_AB) 0 = [''A'']"
  "depth_group (tree state_AB) (Suc 0) = [''B'']"
  by (simp_all add: depth_group_def tree_state_AB)

subsection \<open>The positions of a well-formed tree\<close>

text \<open>
  Claim C6, amended. For every tree whose node mapping stores each node under its own id,
  in which no \<^verbatim>\<open>parentId\<close> is the empty string and in which following \<^verbatim>\<open>parentId\<close> from any
  node arrives at a root within the node count (invariant 3), \<^verbatim>\<open>calculateAutoLayout\<close> returns
  (on a call stack that holds one call more than the tree has nodes) a position for exactly
  the node ids of the tree; every node is in the group of its depth, and the node at index
  \<open>i\<close> of the group of depth \<open>d\<close> (the ids whose chain of \<^verbatim>\<open>parentId\<close> has \<open>d\<close> steps to a root, in
  the order of the node mapping) gets \<open>x = 300 + i * (400 + 500) + d * (400 + 100)\<close> and
  \<open>y = 100 + d * 350\<close>. The result is a function of the tree alone: every sufficient stack
  gives the same mapping. Trees built by admissible calls qualify (lemmas \<open>wf_own_ids\<close>,
  \<open>wf_invariant_3\<close>).
\<close>

theorem calculateAutoLayout_positions:
  assumes "own_ids t" and "invariant_3 t" and "Map_size (nodes t) < stack"
  shows "\<exists>positions. calculateAutoLayout stack t = Some positions
           \<and> calculateAutoLayout (Suc (Map_size (nodes t))) t = Some positions
           \<and> distinct (map fst positions)
           \<and> set (map fst positions) = set (map fst (nodes t))
           \<and> (\<forall>k \<in> set (map fst (nodes t)). \<exists>d. k \<in> set (depth_group t d))
           \<and> (\<forall>d i. i < length (depth_group t d) \<longrightarrow>
                 Map_get positions (depth_group t d ! i)
                   = Some (300 + int i * (400 + 500) + int d * (400 + 100), 100 + int d * 350))"
proof -
  from layout_of_well_formed_tree [OF assms(1,2), of "Suc (Map_size (nodes t))"]
  obtain positions where
    least: "calculateAutoLayout (Suc (Map_size (nodes t))) t = Some positions"
    and props: "distinct (map fst positions)"
      "set (map fst positions) = set (map fst (nodes t))"
      "\<forall>d i. i < length (depth_group t d) \<longrightarrow>
         Map_get positions (depth_group t d ! i)
           = Some (startX + int i * (NODE_WIDTH + HORIZONTAL_SPACING)
                     + int d * (NODE_WIDTH + 100),
                   startY + int d * VERTICAL_SPACING)"
    by auto
  have here: "calculateAutoLayout stack t = Some positions"
    using least assms(3) by (intro calculateAutoLayout_mono [OF least]) simp
  have every: "\<forall>k \<in> set (map fst (nodes t)). \<exists>d. k \<in> set (depth_group t d)"
    using assms(2)
    by (auto simp: invariant_3_def list_all_iff reaches_root_hops depth_group_def)
  from here least props every show ?thesis
    by (simp add: startX_def startY_def NODE_WIDTH_def HORIZONTAL_SPACING_def
          VERTICAL_SPACING_def)
qed

theorem calculateAutoLayout_positions_witness:
  "own_ids (tree state_AB) \<and> invariant_3 (tree state_AB)
   \<and> (\<exists>positions. calculateAutoLayout 3 (tree state_AB) = Some positions
         \<and> set (map fst positions) = {''A'', ''B''}
         \<and> Map_get positions ''A'' = Some (300, 100)
         \<and> Map_get positions ''B'' = Some (800, 450))"
proof -
  have own: "own_ids (tree state_AB)"
    by (simp add: own_ids_def tree_state_AB)
  have inv3: "invariant_3 (tree state_AB)"
    by (simp add: invariant_3_def tree_state_AB)
  have stack: "Map_size (nodes (tree state_AB)) < 3"
    by (simp add: tree_state_AB)
  from calculateAutoLayout_positions [OF own inv3 stack] obtain positions where
    p: "calculateAutoLayout 3 (tree state_AB) = Some positions"
      "set (map fst positions) = set (map fst (nodes (tree state_AB)))"
      "\<forall>d i. i < length (depth_group (tree state_AB) d) \<longrightarrow>
         Map_get positions (depth_group (tree state_AB) d ! i)
           = Some (300 + int i * (400 + 500) + int d * (400 + 100), 100 + int d * 350)"
    by blast
  from p(3) [rule_format, of 0 0] p(3) [rule_format, of 0 "Suc 0"]
  have "Map_get positions ''A'' = Some (300, 100)" "Map_get positions ''B'' = Some (800, 450)"
    by (simp_all add: depth_group_state_AB)
  moreover have "set (map fst positions) = {''A'', ''B''}"
    using p(2) by (simp add: tree_state_AB)
  ultimately show ?thesis using own inv3 p(1) by blast
qed

text \<open>
  The claim as stated (for every tree) fails for a tree with a cycle of \<^verbatim>\<open>parentId\<close>: for the
  node that is its own parent \<^verbatim>\<open>calculateDepth\<close> calls itself with the same id until the call
  stack is used up, whatever its size (lemma \<open>self_parent_no_layout\<close>), and no position is
  returned.
\<close>

theorem calculateAutoLayout_self_parent:
  "nodes self_parent_tree
     = [(''A'', (example_node ''A'' (Some ''A''))\<lparr> childrenIds := [''A''] \<rparr>)]
   \<and> calculateAutoLayout 1000 self_parent_tree = None"
  using self_parent_no_layout [of 1000] by (simp add: self_parent_tree_eq)

section \<open>Further properties of the store\<close>

subsection \<open>What deleteNode removes\<close>

text \<open>
  Whenever \<^verbatim>\<open>deleteNode(id)\<close> returns, the keys of the node mapping are the keys before the
  call without \<open>id\<close>: the node itself is removed when it was there, and no other node is,
  whatever the nested calls did.
\<close>

theorem deleteNode_removes_one_key:
  assumes "deleteNode stack env nodeId state = Some state'"
  shows "fst ` set (nodes (tree state')) = fst ` set (nodes (tree state)) - {nodeId}"
proof (cases "Map_get (nodes (tree state)) nodeId")
  case None
  then have "nodeId \<notin> fst ` set (nodes (tree state))" by (simp add: map_of_eq_None_iff)
  with None deleteNode_tree [OF assms] show ?thesis by simp
next
  case (Some node)
  let ?del = "Map_delete (nodes (tree state)) nodeId"
  have keys_del: "fst ` set ?del = fst ` set (nodes (tree state)) - {nodeId}"
    by (auto simp: AList.delete_eq)
  have keys_upd: "\<And>p parent v. Map_get ?del p = Some parent \<Longrightarrow>
                    fst ` set (Map_set ?del p v) = fst ` set ?del"
  proof -
    fix p parent v assume "Map_get ?del p = Some parent"
    then have "p \<in> fst ` set ?del" by (metis map_of_eq_None_iff option.distinct(1))
    then show "fst ` set (Map_set ?del p v) = fst ` set ?del"
      using update_keys [of p v ?del] by (metis list.set_map)
  qed
  from deleteNode_tree [OF assms] Some show ?thesis
    by (auto simp: Let_def keys_del keys_upd simp del: set_map split: option.splits if_splits)
qed

theorem deleteNode_removes_one_key_witness:
  "map_option (\<lambda>s. map fst (nodes (tree s))) (deleteNode (Suc (Suc 0)) example_env ''A'' state_AB)
     = Some [''B'']
   \<and> fst ` set (nodes (tree state_AB)) - {''A''} = {''B''}"
proof -
  have run: "map_option tree (deleteNode (Suc (Suc 0)) example_env ''A'' state_AB)
     = Some \<lparr> nodes = [(''B'', example_node ''B'' (Some ''A''))], rootIds = [] \<rparr>"
    by (simp add: tree_state_AB Let_def AList.delete_eq example_node_def)
  then obtain s where s: "deleteNode (Suc (Suc 0)) example_env ''A'' state_AB = Some s"
    "tree s = \<lparr> nodes = [(''B'', example_node ''B'' (Some ''A''))], rootIds = [] \<rparr>"
    by auto
  from deleteNode_removes_one_key [OF s(1)] s show ?thesis
    by (simp add: tree_state_AB)
qed

subsection \<open>deleteSession of the active session, for every state\<close>

text \<open>
  When \<^verbatim>\<open>deleteSession\<close> is called with the id of the active session, the active session id
  becomes the id made from the clock and the random number, and the session mapping is
  the mapping before the call without the deleted id: the replacement session is not in
  it, unless a session was stored under that very id before.
\<close>

theorem deleteSession_of_active_session:
  assumes "currentSessionId state = Some sessionId"
  shows "currentSessionId (deleteSession env sessionId state) = Some (newSessionId env)
         \<and> sessions (deleteSession env sessionId state) = Map_delete (sessions state) sessionId"
  using assms by (simp add: deleteSession_def createNewSession_def Let_def)

theorem deleteSession_of_active_session_witness:
  "currentSessionId state_S = Some ''session-1700000000000-k3j9x0q2a''
   \<and> currentSessionId (deleteSession example_env2 ''session-1700000000000-k3j9x0q2a'' state_S)
       = Some ''session-1700000005000-p0c7m2zq1''
   \<and> Map_get (sessions (deleteSession example_env2 ''session-1700000000000-k3j9x0q2a'' state_S))
        ''session-1700000005000-p0c7m2zq1'' = None"
  using deleteSession_of_active_session
          [of state_S "''session-1700000000000-k3j9x0q2a''" example_env2]
  by (simp add: state_S_eq newSessionId_example_env2 AList.delete_eq)

subsection \<open>exportSession followed by importSession, for a session that holds a Map\<close>

text \<open>
  A session whose nodes are held as a \<^verbatim>\<open>Map\<close> of node objects with non-empty names (as
  \<^verbatim>\<open>importSession\<close> and \<^verbatim>\<open>loadFromStorage\<close> build them) is exported and imported again
  with its tree unchanged: the same keys in the same order, the same nodes and the same
  root sequence, under the new session id.
\<close>

lemma fold_set_distinct:
  "distinct (map fst (acc @ xs)) \<Longrightarrow> fold (\<lambda>(k, v) m. Map_set m k v) xs acc = acc @ xs"
proof (induction xs arbitrary: acc)
  case Nil
  then show ?case by simp
next
  case (Cons x xs)
  obtain k v where x: "x = (k, v)" by (cases x)
  from Cons.prems have "k \<notin> fst ` set acc" by (auto simp: x)
  then have "Map_set acc k v = acc @ [(k, v)]" by (rule update_fresh)
  moreover have "distinct (map fst ((acc @ [(k, v)]) @ xs))" using Cons.prems by (simp add: x)
  ultimately show ?case using Cons.IH [of "acc @ [(k, v)]"] by (simp add: x)
qed

lemma new_Map_distinct: "distinct (map fst m) \<Longrightarrow> new_Map m = m"
  using fold_set_distinct [of "[]" m] by (simp add: new_Map_def)

lemma state_imported_session:
  "Map_get (sessions state_imported) ''session-1700000005000-p0c7m2zq1''
     = Some \<lparr> session_id = ''session-1700000005000-p0c7m2zq1'', session_name = ''Notes'',
              createdAt = 1, updatedAt = 1700000005000,
              session_tree =
                \<lparr> stored_nodes = NodesMap [(KeyStr ''A'', NodeVal (example_node ''A'' None))],
                  stored_rootIds = [''A''] \<rparr> \<rparr>"
  by (simp add: state_imported_def importSession_def Let_def newSessionId_example_env2
        state_S_eq example_data_def example_session_data_def example_tree_data_def truthy_def
        example_env_fields new_Map_def)

theorem export_import_of_a_map_session:
  assumes "Map_get (sessions state) sessionId = Some session"
    and "stored_nodes (session_tree session) = NodesMap m"
    and "distinct (map fst m)"
    and "\<forall>(k, v) \<in> set m. \<exists>node. v = NodeVal node \<and> truthy (name node)"
  shows "\<exists>exported. exportSession env sessionId state = Inr exported
           \<and> fst (importSession env' exported state) = Inr (newSessionId env')
           \<and> map_option session_tree
                (Map_get (sessions (snd (importSession env' exported state))) (newSessionId env'))
               = Some (session_tree session)"
proof -
  have plain: "map (\<lambda>(k, v). (k, json_value v)) m = m"
    using assms(4) by (intro map_idI) auto
  have named: "map (\<lambda>(k, v). (k, fill_name state v)) m = m"
    using assms(4) by (intro map_idI) auto
  have tree_eq: "\<lparr> stored_nodes = NodesMap m, stored_rootIds = stored_rootIds (session_tree session) \<rparr>
                   = session_tree session"
    using assms(2) by (cases "session_tree session") simp
  show ?thesis
    using assms(1,2)
    by (simp add: exportSession_def importSession_def Let_def plain named
          new_Map_distinct [OF assms(3)] update_conv' tree_eq)
qed

theorem export_import_of_a_map_session_witness:
  "\<exists>exported. exportSession example_env ''session-1700000005000-p0c7m2zq1'' state_imported
                 = Inr exported
     \<and> map_option (\<lambda>s. stored_nodes (session_tree s))
          (Map_get (sessions (snd (importSession example_env exported state_imported)))
             ''session-1700000000000-k3j9x0q2a'')
         = Some (NodesMap [(KeyStr ''A'', NodeVal (example_node ''A'' None))])"
  using export_import_of_a_map_session [OF state_imported_session, of
          "[(KeyStr ''A'', NodeVal (example_node ''A'' None))]" example_env example_env]
  by (auto simp: truthy_def newSessionId_example_env option.map_comp comp_def
           split: option.splits)

end
